theory Spec2Isabelle
  imports Complex_Main "HOL-Library.Word"
begin

unbundle bit_operations_syntax

section \<open>Machine types\<close>

type_synonym u8 = "8 word"
type_synonym u32 = "32 word"
type_synonym u64 = "64 word"

section \<open>GPUCache (memory\_hierarchy.cpp)\<close>

text \<open>
  A cache line as declared in memory\_hierarchy.h. The constructor zero-fills the payload
  and leaves the line invalid.
\<close>

record CacheLine =
  address :: u64
  data :: "u8 list"
  valid :: bool
  dirty :: bool
  access_time :: u64

definition CacheLine_new :: "u64 \<Rightarrow> u64 \<Rightarrow> CacheLine" where
  "CacheLine_new addr sz =
     \<lparr>address = addr, data = replicate (unat sz) 0, valid = False, dirty = False,
      access_time = 0\<rparr>"

text \<open>
  The cache object. \<open>cache_sets\<close> is the vector of sets, each a vector of slots; a slot is a
  \<open>unique_ptr\<close>, empty (\<open>None\<close>) or owning a line. All sizes are \<open>size_t\<close>, 64 bits wide.
\<close>

record GPUCache =
  cache_size :: u64
  line_size :: u64
  associativity :: u64
  num_sets :: u64
  cache_sets :: "CacheLine option list list"
  hit_count :: u64
  miss_count :: u64
  access_count :: u64

definition GPUCache_new :: "u64 \<Rightarrow> u64 \<Rightarrow> u64 \<Rightarrow> GPUCache" where
  "GPUCache_new csize lsize assoc =
     (let nsets = csize div (lsize * assoc)
      in \<lparr>cache_size = csize, line_size = lsize, associativity = assoc, num_sets = nsets,
          cache_sets = replicate (unat nsets) (replicate (unat assoc) None),
          hit_count = 0, miss_count = 0, access_count = 0\<rparr>)"

definition get_set_index :: "GPUCache \<Rightarrow> u64 \<Rightarrow> u64" where
  "get_set_index c a = (a div line_size c) mod num_sets c"

definition get_tag :: "GPUCache \<Rightarrow> u64 \<Rightarrow> u64" where
  "get_tag c a = a div (line_size c * num_sets c)"

text \<open>The line base the source computes as \<open>address & ~(line_size_ - 1)\<close>.\<close>

definition line_base :: "GPUCache \<Rightarrow> u64 \<Rightarrow> u64" where
  "line_base c a = a AND NOT (line_size c - 1)"

text \<open>
  \<open>find_line\<close> walks the set in slot order and stops at the first slot that owns a valid
  line with the wanted base address. \<open>find_way\<close> is that walk; it yields the slot number
  and the line found. A \<open>CacheLine*\<close> is modelled by the pair (set number, slot number).
\<close>

fun find_way :: "u64 \<Rightarrow> CacheLine option list \<Rightarrow> (nat \<times> CacheLine) option" where
  "find_way b [] = None"
| "find_way b (None # ls) = map_option (\<lambda>(w, l). (Suc w, l)) (find_way b ls)"
| "find_way b (Some l # ls) =
     (if valid l \<and> address l = b then Some (0, l)
      else map_option (\<lambda>(w, l). (Suc w, l)) (find_way b ls))"

definition set_slot :: "GPUCache \<Rightarrow> nat \<Rightarrow> nat \<Rightarrow> CacheLine \<Rightarrow> GPUCache" where
  "set_slot c si w l =
     c\<lparr>cache_sets := (cache_sets c)[si := (cache_sets c ! si)[w := Some l]]\<rparr>"

text \<open>
  \<open>find_line\<close> stamps the line it finds with the current access counter and returns a
  pointer to it; the model returns the pointer, the stamped line and the updated cache.
\<close>

definition find_line :: "GPUCache \<Rightarrow> u64 \<Rightarrow> ((nat \<times> nat) \<times> CacheLine) option \<times> GPUCache" where
  "find_line c a =
     (let si = unat (get_set_index c a)
      in case find_way (line_base c a) (cache_sets c ! si) of
           None \<Rightarrow> (None, c)
         | Some (w, l) \<Rightarrow>
             (let l' = l\<lparr>access_time := access_count c\<rparr>
              in (Some ((si, w), l'), set_slot c si w l')))"

text \<open>The first slot that is empty or owns an invalid line.\<close>

fun find_empty :: "CacheLine option list \<Rightarrow> nat option" where
  "find_empty [] = None"
| "find_empty (None # ls) = Some 0"
| "find_empty (Some l # ls) = (if \<not> valid l then Some 0 else map_option Suc (find_empty ls))"

text \<open>
  \<open>std::min_element\<close>: the first element is the candidate; a later element replaces it
  when the comparator puts it strictly before the candidate. On an empty range the
  result is the end iterator, index 0 here.
\<close>

fun min_element_from :: "('a \<Rightarrow> 'a \<Rightarrow> bool) \<Rightarrow> 'a list \<Rightarrow> nat \<Rightarrow> 'a \<Rightarrow> nat \<Rightarrow> nat" where
  "min_element_from lt [] i s si = si"
| "min_element_from lt (x # xs) i s si =
     (if lt x s then min_element_from lt xs (Suc i) x i
      else min_element_from lt xs (Suc i) s si)"

definition min_element :: "('a \<Rightarrow> 'a \<Rightarrow> bool) \<Rightarrow> 'a list \<Rightarrow> nat" where
  "min_element lt xs = (case xs of [] \<Rightarrow> 0 | x # r \<Rightarrow> min_element_from lt r 1 x 0)"

text \<open>The comparator of the LRU search in \<open>allocate_line\<close>.\<close>

fun lru_less :: "CacheLine option \<Rightarrow> CacheLine option \<Rightarrow> bool" where
  "lru_less None b = True"
| "lru_less (Some x) None = (\<not> valid x)"
| "lru_less (Some x) (Some y) =
     (if \<not> valid x then True else if \<not> valid y then False
      else access_time x < access_time y)"

definition allocate_line :: "GPUCache \<Rightarrow> u64 \<Rightarrow> ((nat \<times> nat) \<times> CacheLine) \<times> GPUCache" where
  "allocate_line c a =
     (let si = unat (get_set_index c a);
          st = cache_sets c ! si;
          l = (CacheLine_new (line_base c a) (line_size c))
                \<lparr>valid := True, access_time := access_count c\<rparr>;
          w = (case find_empty st of Some w \<Rightarrow> w | None \<Rightarrow> min_element lru_less st)
      in (((si, w), l), set_slot c si w l))"

text \<open>
  \<open>read\<close>: the buffer is a byte list whose length is the \<open>size\<close> argument. On a hit the
  first \<open>min(size, line_size - offset)\<close> bytes of the buffer are overwritten from the line
  and the rest of the buffer is left as it was.
\<close>

definition gc_read :: "GPUCache \<Rightarrow> u64 \<Rightarrow> u8 list \<Rightarrow> bool \<times> u8 list \<times> GPUCache" where
  "gc_read c a buf =
     (let c1 = c\<lparr>access_count := access_count c + 1\<rparr>;
          (r, c2) = find_line c1 a
      in case r of
           Some (p, l) \<Rightarrow>
             (let c3 = c2\<lparr>hit_count := hit_count c2 + 1\<rparr>;
                  offset = a mod line_size c3;
                  copy_size = min (length buf) (unat (line_size c3 - offset))
              in (True, take copy_size (drop (unat offset) (data l)) @ drop copy_size buf, c3))
         | None \<Rightarrow> (False, buf, c2\<lparr>miss_count := miss_count c2 + 1\<rparr>))"

text \<open>
  \<open>write\<close>: on a miss a line is allocated (the first free slot, else the LRU victim) and
  zero-filled; then the clipped data is copied into the line at the offset and the line
  is marked dirty.
\<close>

definition gc_write :: "GPUCache \<Rightarrow> u64 \<Rightarrow> u8 list \<Rightarrow> bool \<times> GPUCache" where
  "gc_write c a d =
     (let c1 = c\<lparr>access_count := access_count c + 1\<rparr>;
          (r, c2) = find_line c1 a;
          (((si, w), l), c3) =
             (case r of
                None \<Rightarrow> (let (pl, c') = allocate_line c2 a
                         in (pl, c'\<lparr>miss_count := miss_count c' + 1\<rparr>))
              | Some pl \<Rightarrow> (pl, c2\<lparr>hit_count := hit_count c2 + 1\<rparr>));
          offset = a mod line_size c3;
          copy_size = min (length d) (unat (line_size c3 - offset));
          l' = l\<lparr>data := take (unat offset) (data l) @ take copy_size d
                            @ drop (unat offset + copy_size) (data l),
                  dirty := True\<rparr>
      in (True, set_slot c3 si w l'))"

definition gc_invalidate :: "GPUCache \<Rightarrow> u64 \<Rightarrow> GPUCache" where
  "gc_invalidate c a =
     (case find_line c a of
        (Some ((si, w), l), c') \<Rightarrow> set_slot c' si w (l\<lparr>valid := False, dirty := False\<rparr>)
      | (None, c') \<Rightarrow> c')"

definition gc_flush :: "GPUCache \<Rightarrow> GPUCache" where
  "gc_flush c =
     c\<lparr>cache_sets :=
         map (map (map_option (\<lambda>l. l\<lparr>valid := False, dirty := False\<rparr>))) (cache_sets c)\<rparr>"

text \<open>Sequences of public operations on one cache.\<close>

datatype gc_op = Read u64 "u8 list" | Write u64 "u8 list" | Invalidate u64 | Flush

fun gc_step :: "GPUCache \<Rightarrow> gc_op \<Rightarrow> GPUCache" where
  "gc_step c (Read a buf) = snd (snd (gc_read c a buf))"
| "gc_step c (Write a d) = snd (gc_write c a d)"
| "gc_step c (Invalidate a) = gc_invalidate c a"
| "gc_step c Flush = gc_flush c"

definition gc_run :: "GPUCache \<Rightarrow> gc_op list \<Rightarrow> GPUCache" where
  "gc_run c ops = foldl gc_step c ops"

definition counters_ok :: "GPUCache \<Rightarrow> bool" where
  "counters_ok c = (hit_count c + miss_count c = access_count c)"

section \<open>MemoryHierarchy (memory\_hierarchy.cpp)\<close>

text \<open>
  The hierarchy owns the two caches, the VRAM byte vector, the bump pointer and the
  table of live allocations (\<open>unordered_map<uint64_t, size_t>\<close>).
\<close>

record MemoryHierarchy =
  l1_cache :: GPUCache
  l2_cache :: GPUCache
  vram :: "u8 list"
  next_allocation_address :: u64
  allocations :: "u64 \<rightharpoonup> u64"

definition MemoryHierarchy_new :: MemoryHierarchy where
  "MemoryHierarchy_new =
     \<lparr>l1_cache = GPUCache_new (32 * 1024) 64 4,
      l2_cache = GPUCache_new (512 * 1024) 128 8,
      vram = replicate (4 * 1024 * 1024 * 1024) 0,
      next_allocation_address = 0x10000000,
      allocations = Map.empty\<rparr>"

text \<open>
  The bounds test \<open>address + size <= vram_.size()\<close> is evaluated in 64-bit unsigned
  arithmetic, as the source does. (Where that sum wraps around and the test passes, the
  source copies outside the vector, which is undefined; the model then copies whatever
  part of the range the list has.)
\<close>

definition in_vram :: "MemoryHierarchy \<Rightarrow> u64 \<Rightarrow> nat \<Rightarrow> bool" where
  "in_vram m a n = (a + word_of_nat n \<le> (word_of_nat (length (vram m)) :: u64))"

definition mh_read :: "MemoryHierarchy \<Rightarrow> u64 \<Rightarrow> u8 list \<Rightarrow> bool \<times> u8 list \<times> MemoryHierarchy" where
  "mh_read m a buf =
     (let (h1, buf1, c1) = gc_read (l1_cache m) a buf
      in if h1 then (True, buf1, m\<lparr>l1_cache := c1\<rparr>)
         else
           (let (h2, buf2, c2) = gc_read (l2_cache m) a buf1
            in if h2
               then (True, buf2, m\<lparr>l1_cache := snd (gc_write c1 a buf2), l2_cache := c2\<rparr>)
               else if in_vram m a (length buf2)
               then (let buf3 = take (length buf2) (drop (unat a) (vram m))
                     in (True, buf3,
                         m\<lparr>l1_cache := snd (gc_write c1 a buf3),
                           l2_cache := snd (gc_write c2 a buf3)\<rparr>))
               else (False, buf2, m\<lparr>l1_cache := c1, l2_cache := c2\<rparr>)))"

definition mh_write :: "MemoryHierarchy \<Rightarrow> u64 \<Rightarrow> u8 list \<Rightarrow> bool \<times> MemoryHierarchy" where
  "mh_write m a d =
     (let m' = m\<lparr>l1_cache := snd (gc_write (l1_cache m) a d),
                 l2_cache := snd (gc_write (l2_cache m) a d)\<rparr>
      in if in_vram m a (length d)
         then (True, m'\<lparr>vram := take (unat a) (vram m) @ d
                                @ drop (unat a + length d) (vram m)\<rparr>)
         else (False, m'))"

definition mh_allocate :: "MemoryHierarchy \<Rightarrow> u64 \<Rightarrow> u64 \<times> MemoryHierarchy" where
  "mh_allocate m sz =
     (let addr = next_allocation_address m;
          sz' = (sz + 15) AND NOT 15
      in if addr + sz' > word_of_nat (length (vram m)) then (0, m)
         else (addr, m\<lparr>allocations := (allocations m)(addr \<mapsto> sz'),
                       next_allocation_address := next_allocation_address m + sz'\<rparr>))"

text \<open>
  The loop of \<open>deallocate\<close>:
  \<^verbatim>\<open>for (uint64_t addr = address; addr < address + size; addr += 64)\<close>.
  The counter is a 64-bit value and may wrap around, so the loop is not known to end for
  every table entry; not returning is the value \<open>None\<close>.
\<close>

partial_function (option) invalidate_range ::
    "GPUCache \<Rightarrow> GPUCache \<Rightarrow> u64 \<Rightarrow> u64 \<Rightarrow> (GPUCache \<times> GPUCache) option" where
  "invalidate_range c1 c2 addr e =
     (if addr < e
      then invalidate_range (gc_invalidate c1 addr) (gc_invalidate c2 addr) (addr + 64) e
      else Some (c1, c2))"

definition mh_deallocate :: "MemoryHierarchy \<Rightarrow> u64 \<Rightarrow> MemoryHierarchy option" where
  "mh_deallocate m a =
     (case allocations m a of
        None \<Rightarrow> Some m
      | Some sz \<Rightarrow>
          (case invalidate_range (l1_cache m) (l2_cache m) a (a + sz) of
             None \<Rightarrow> None
           | Some (c1, c2) \<Rightarrow>
               Some (m\<lparr>l1_cache := c1, l2_cache := c2,
                       allocations := (allocations m)(a := None)\<rparr>)))"

definition mh_flush_all_caches :: "MemoryHierarchy \<Rightarrow> MemoryHierarchy" where
  "mh_flush_all_caches m =
     m\<lparr>l1_cache := gc_flush (l1_cache m), l2_cache := gc_flush (l2_cache m)\<rparr>"

text \<open>The addresses returned by a run of \<open>allocate\<close> calls, in call order.\<close>

fun mh_allocate_all :: "MemoryHierarchy \<Rightarrow> u64 list \<Rightarrow> u64 list" where
  "mh_allocate_all m [] = []"
| "mh_allocate_all m (sz # szs) =
     (let (a, m') = mh_allocate m sz in a # mh_allocate_all m' szs)"

text \<open>
  The state the allocator relies on: the VRAM vector is at most 4 GiB long (the
  constructor makes it exactly that) and the bump pointer lies inside it.
\<close>

definition alloc_ok :: "MemoryHierarchy \<Rightarrow> bool" where
  "alloc_ok m =
     (length (vram m) \<le> 2 ^ 32 \<and> unat (next_allocation_address m) \<le> length (vram m))"

text \<open>
  A scenario for \<open>deallocate\<close>: a 16-byte allocation, then a 128-byte allocation whose base
  is therefore 16-aligned but not 64-aligned, one byte written to the last 16 bytes of
  that second allocation, and the second allocation freed.
\<close>

definition dealloc_scenario :: "MemoryHierarchy option" where
  "dealloc_scenario =
     (let (a1, m1) = mh_allocate MemoryHierarchy_new 16;
          (a2, m2) = mh_allocate m1 128;
          (ok, m3) = mh_write m2 (a2 + 0x70) [0xA5]
      in mh_deallocate m3 a2)"

section \<open>Specification predicates for the caches\<close>

text \<open>A slot answers a lookup for base \<open>b\<close> when it owns a valid line with that base.\<close>

fun slot_matches :: "u64 \<Rightarrow> CacheLine option \<Rightarrow> bool" where
  "slot_matches b None = False"
| "slot_matches b (Some l) = (valid l \<and> address l = b)"

text \<open>
  The shape the constructor establishes and every operation keeps: at least one set, as
  many sets as \<open>num_sets\<close> says, no set without slots, and every line's payload exactly
  \<open>line_size\<close> bytes long.
\<close>

fun slot_ok :: "u64 \<Rightarrow> CacheLine option \<Rightarrow> bool" where
  "slot_ok ls None = True"
| "slot_ok ls (Some l) = (length (data l) = unat ls)"

definition cache_wf :: "GPUCache \<Rightarrow> bool" where
  "cache_wf c =
     (0 < line_size c \<and> 0 < num_sets c \<and> length (cache_sets c) = unat (num_sets c) \<and>
      list_all (\<lambda>st. st \<noteq> [] \<and> list_all (slot_ok (line_size c)) st) (cache_sets c))"

text \<open>
  A lookup of address \<open>a\<close> finds a line, and that line holds exactly the bytes \<open>bs\<close>, all
  of them, from \<open>a\<close>'s offset on.
\<close>

definition line_holds :: "GPUCache \<Rightarrow> u64 \<Rightarrow> u8 list \<Rightarrow> bool" where
  "line_holds c a bs =
     (case find_way (line_base c a) (cache_sets c ! unat (get_set_index c a)) of
        None \<Rightarrow> False
      | Some (w, l) \<Rightarrow> take (length bs) (drop (unat (a mod line_size c)) (data l)) = bs)"

text \<open>Two caches of one geometry that agree on the set address \<open>a\<close> maps to.\<close>

definition same_set :: "GPUCache \<Rightarrow> GPUCache \<Rightarrow> u64 \<Rightarrow> bool" where
  "same_set c' c a =
     (line_size c' = line_size c \<and> num_sets c' = num_sets c \<and>
      cache_sets c' ! unat (get_set_index c a) = cache_sets c ! unat (get_set_index c a))"

text \<open>
  The invariant of the hierarchy: the allocator state above, both caches well formed,
  and every recorded allocation inside VRAM.
\<close>

definition allocs_in_vram :: "MemoryHierarchy \<Rightarrow> bool" where
  "allocs_in_vram m =
     (\<forall>a sz. allocations m a = Some sz \<longrightarrow> unat a + unat sz \<le> length (vram m))"

definition mem_inv :: "MemoryHierarchy \<Rightarrow> bool" where
  "mem_inv m =
     (alloc_ok m \<and> cache_wf (l1_cache m) \<and> cache_wf (l2_cache m) \<and> allocs_in_vram m)"

text \<open>Reads and writes issued to the hierarchy, as a sequence.\<close>

datatype mh_access = MRead u64 "u8 list" | MWrite u64 "u8 list"

fun access_addr :: "mh_access \<Rightarrow> u64" where
  "access_addr (MRead a buf) = a"
| "access_addr (MWrite a d) = a"

fun mh_access_step :: "MemoryHierarchy \<Rightarrow> mh_access \<Rightarrow> MemoryHierarchy" where
  "mh_access_step m (MRead a buf) = snd (snd (mh_read m a buf))"
| "mh_access_step m (MWrite a d) = snd (mh_write m a d)"

definition mh_accesses :: "MemoryHierarchy \<Rightarrow> mh_access list \<Rightarrow> MemoryHierarchy" where
  "mh_accesses m ops = foldl mh_access_step m ops"

section \<open>Counter bookkeeping of GPUCache\<close>

lemma set_slot_counters [simp]:
  "hit_count (set_slot c si w l) = hit_count c"
  "miss_count (set_slot c si w l) = miss_count c"
  "access_count (set_slot c si w l) = access_count c"
  by (simp_all add: set_slot_def)

lemma find_line_counters:
  "hit_count (snd (find_line c a)) = hit_count c"
  "miss_count (snd (find_line c a)) = miss_count c"
  "access_count (snd (find_line c a)) = access_count c"
  by (simp_all add: find_line_def Let_def split: option.splits prod.splits)

lemma allocate_line_counters:
  "hit_count (snd (allocate_line c a)) = hit_count c"
  "miss_count (snd (allocate_line c a)) = miss_count c"
  "access_count (snd (allocate_line c a)) = access_count c"
  by (simp_all add: allocate_line_def Let_def)

lemma gc_read_counters:
  assumes "counters_ok c"
  shows "counters_ok (snd (snd (gc_read c a buf)))"
proof -
  let ?c1 = "c\<lparr>access_count := access_count c + 1\<rparr>"
  obtain r c2 where f: "find_line ?c1 a = (r, c2)" by (cases "find_line ?c1 a")
  have h: "hit_count c2 = hit_count c" "miss_count c2 = miss_count c"
          "access_count c2 = access_count c + 1"
    using find_line_counters [of ?c1 a] f by simp_all
  show ?thesis
    using assms h f
    by (cases r) (auto simp: gc_read_def counters_ok_def Let_def split: prod.splits)
qed

lemma gc_write_counters:
  assumes "counters_ok c"
  shows "counters_ok (snd (gc_write c a d))"
proof -
  let ?c1 = "c\<lparr>access_count := access_count c + 1\<rparr>"
  obtain r c2 where f: "find_line ?c1 a = (r, c2)" by (cases "find_line ?c1 a")
  have h: "hit_count c2 = hit_count c" "miss_count c2 = miss_count c"
          "access_count c2 = access_count c + 1"
    using find_line_counters [of ?c1 a] f by simp_all
  obtain pl c' where al: "allocate_line c2 a = (pl, c')" by (cases "allocate_line c2 a")
  have h': "hit_count c' = hit_count c" "miss_count c' = miss_count c"
           "access_count c' = access_count c + 1"
    using allocate_line_counters [of c2 a] al h by simp_all
  show ?thesis
    using assms h h' f al
    by (cases r) (auto simp: gc_write_def counters_ok_def Let_def split: prod.splits)
qed

lemma gc_invalidate_counters:
  assumes "counters_ok c"
  shows "counters_ok (gc_invalidate c a)"
proof -
  obtain r c2 where f: "find_line c a = (r, c2)" by (cases "find_line c a")
  have h: "hit_count c2 = hit_count c" "miss_count c2 = miss_count c"
          "access_count c2 = access_count c"
    using find_line_counters [of c a] f by simp_all
  show ?thesis
    using assms h f
    by (cases r) (auto simp: gc_invalidate_def counters_ok_def split: prod.splits)
qed

lemma gc_flush_counters: "counters_ok c \<Longrightarrow> counters_ok (gc_flush c)"
  by (simp add: gc_flush_def counters_ok_def)

lemma gc_step_counters: "counters_ok c \<Longrightarrow> counters_ok (gc_step c op)"
  by (cases op)
     (simp_all add: gc_read_counters gc_write_counters gc_invalidate_counters gc_flush_counters)

lemma gc_run_counters: "counters_ok c \<Longrightarrow> counters_ok (gc_run c ops)"
  unfolding gc_run_def
  by (induction ops arbitrary: c) (simp_all add: gc_step_counters)

lemma GPUCache_new_counters: "counters_ok (GPUCache_new csize lsize assoc)"
  by (simp add: GPUCache_new_def counters_ok_def Let_def)

text \<open>
  C8. A cache built by the constructor, of any geometry, satisfies
  \<open>hits + misses = accesses\<close> (in the 64-bit arithmetic of the counters) after every
  sequence of \<open>read\<close>, \<open>write\<close>, \<open>invalidate\<close> and \<open>flush\<close> calls.
\<close>

theorem gpu_cache_hits_plus_misses:
  "hit_count (gc_run (GPUCache_new csize lsize assoc) ops)
     + miss_count (gc_run (GPUCache_new csize lsize assoc) ops)
   = access_count (gc_run (GPUCache_new csize lsize assoc) ops)"
  using gc_run_counters [OF GPUCache_new_counters, of csize lsize assoc ops]
  by (simp add: counters_ok_def)

section \<open>Lookup, allocation and write in one cache\<close>

lemma find_way_Some:
  "find_way b st = Some (w, l) \<Longrightarrow>
     w < length st \<and> st ! w = Some l \<and> valid l \<and> address l = b \<and> (\<forall>j<w. \<not> slot_matches b (st ! j))"
proof (induction b st arbitrary: w l rule: find_way.induct)
  case (1 b)
  then show ?case by simp
next
  case (2 b ls)
  then obtain w' where w: "w = Suc w'" "find_way b ls = Some (w', l)" by auto
  from 2(1) [OF w(2)] show ?case using w(1) by (auto simp: nth_Cons split: nat.splits)
next
  case (3 b x ls)
  show ?case
  proof (cases "valid x \<and> address x = b")
    case True
    then show ?thesis using 3(2) by auto
  next
    case False
    then obtain w' where w: "w = Suc w'" "find_way b ls = Some (w', l)" using 3(2) by auto
    from 3(1) [OF False w(2)] show ?thesis using w(1) False by (auto simp: nth_Cons split: nat.splits)
  qed
qed

lemma find_way_None:
  "find_way b st = None \<Longrightarrow> \<forall>j<length st. \<not> slot_matches b (st ! j)"
proof (induction b st rule: find_way.induct)
  case (1 b)
  then show ?case by simp
next
  case (2 b ls)
  then show ?case by (auto simp: nth_Cons split: nat.splits)
next
  case (3 b x ls)
  then show ?case by (auto simp: nth_Cons split: nat.splits if_splits)
qed

lemma find_way_first:
  "w < length st \<Longrightarrow> \<forall>j<w. \<not> slot_matches b (st ! j) \<Longrightarrow> st ! w = Some l \<Longrightarrow> valid l \<Longrightarrow> address l = b
     \<Longrightarrow> find_way b st = Some (w, l)"
proof (induction b st arbitrary: w rule: find_way.induct)
  case (1 b)
  then show ?case by simp
next
  case (2 b ls)
  then obtain w' where w: "w = Suc w'" by (cases w) auto
  have "find_way b ls = Some (w', l)"
    using 2 w by (intro 2(1)) auto
  then show ?case using w by simp
next
  case (3 b x ls)
  show ?case
  proof (cases w)
    case 0
    then show ?thesis using 3 by simp
  next
    case (Suc w')
    have nm: "\<not> (valid x \<and> address x = b)" using 3(3) Suc by force
    have "find_way b ls = Some (w', l)"
      using 3(2-) Suc nm by (intro 3(1)) auto
    then show ?thesis using Suc nm by simp
  qed
qed

lemma find_empty_Some: "find_empty st = Some w \<Longrightarrow> w < length st"
  by (induction st arbitrary: w rule: find_empty.induct) (auto split: if_splits)

lemma min_element_from_bound:
  "si < i \<Longrightarrow> min_element_from lt xs i s si < i + length xs"
proof (induction xs arbitrary: i s si)
  case Nil
  then show ?case by simp
next
  case (Cons x xs)
  have "min_element_from lt xs (Suc i) x i < Suc i + length xs"
    by (rule Cons.IH) simp
  moreover have "min_element_from lt xs (Suc i) s si < Suc i + length xs"
    using Cons.prems by (intro Cons.IH) simp
  ultimately show ?case by simp
qed

lemma min_element_bound: "xs \<noteq> [] \<Longrightarrow> min_element lt xs < length xs"
  using min_element_from_bound [of 0 1 lt "tl xs"]
  by (cases xs) (auto simp: min_element_def)

lemma set_index_in_range:
  assumes "cache_wf c"
  shows "unat (get_set_index c a) < length (cache_sets c)"
proof -
  have "0 < num_sets c" "length (cache_sets c) = unat (num_sets c)"
    using assms by (simp_all add: cache_wf_def)
  then show ?thesis
    by (simp add: get_set_index_def unat_mod_distrib unat_gt_0 word_neq_0_conv)
qed

lemma cache_wf_set:
  assumes "cache_wf c" "si < length (cache_sets c)"
  shows "cache_sets c ! si \<noteq> []"
    and "w < length (cache_sets c ! si) \<Longrightarrow> cache_sets c ! si ! w = Some l \<Longrightarrow> length (data l) = unat (line_size c)"
proof -
  have a: "list_all (slot_ok (line_size c)) (cache_sets c ! si)"
     and b: "cache_sets c ! si \<noteq> []"
    using assms by (auto simp: cache_wf_def list_all_length)
  show "cache_sets c ! si \<noteq> []" by (rule b)
  show "w < length (cache_sets c ! si) \<Longrightarrow> cache_sets c ! si ! w = Some l \<Longrightarrow> length (data l) = unat (line_size c)"
  proof -
    assume w: "w < length (cache_sets c ! si)" and l: "cache_sets c ! si ! w = Some l"
    have "slot_ok (line_size c) (cache_sets c ! si ! w)"
      using a w by (simp add: list_all_length)
    then show ?thesis using l by simp
  qed
qed

lemma offset_bounds:
  fixes a ls :: u64
  assumes "0 < ls"
  shows "unat (a mod ls) < unat ls" and "unat (ls - a mod ls) = unat ls - unat (a mod ls)"
proof -
  have p: "0 < unat ls" using assms by (simp add: unat_gt_0 word_neq_0_conv)
  show lt: "unat (a mod ls) < unat ls" using p by (simp add: unat_mod_distrib)
  have "a mod ls \<le> ls" using lt by (simp add: word_le_nat_alt)
  then show "unat (ls - a mod ls) = unat ls - unat (a mod ls)" by (simp add: unat_sub)
qed

lemma get_set_index_upd [simp]:
  "get_set_index (c\<lparr>access_count := x\<rparr>) a = get_set_index c a"
  "get_set_index (c\<lparr>hit_count := x\<rparr>) a = get_set_index c a"
  "get_set_index (c\<lparr>miss_count := x\<rparr>) a = get_set_index c a"
  "get_set_index (c\<lparr>cache_sets := y\<rparr>) a = get_set_index c a"
  "get_set_index (set_slot c si w l) a = get_set_index c a"
  by (simp_all add: get_set_index_def set_slot_def)

lemma line_base_upd [simp]:
  "line_base (c\<lparr>access_count := x\<rparr>) a = line_base c a"
  "line_base (c\<lparr>hit_count := x\<rparr>) a = line_base c a"
  "line_base (c\<lparr>miss_count := x\<rparr>) a = line_base c a"
  "line_base (c\<lparr>cache_sets := y\<rparr>) a = line_base c a"
  "line_base (set_slot c si w l) a = line_base c a"
  by (simp_all add: line_base_def set_slot_def)

lemma set_slot_fields [simp]:
  "line_size (set_slot c si w l) = line_size c"
  "num_sets (set_slot c si w l) = num_sets c"
  "associativity (set_slot c si w l) = associativity c"
  "cache_size (set_slot c si w l) = cache_size c"
  "cache_sets (set_slot c si w l) = (cache_sets c)[si := (cache_sets c ! si)[w := Some l]]"
  by (simp_all add: set_slot_def)

lemma find_line_None:
  "find_way (line_base c a) (cache_sets c ! unat (get_set_index c a)) = None
     \<Longrightarrow> find_line c a = (None, c)"
  by (simp add: find_line_def)

lemma find_line_Some:
  "find_way (line_base c a) (cache_sets c ! unat (get_set_index c a)) = Some (w, l)
     \<Longrightarrow> find_line c a =
          (Some ((unat (get_set_index c a), w), l\<lparr>access_time := access_count c\<rparr>),
           set_slot c (unat (get_set_index c a)) w (l\<lparr>access_time := access_count c\<rparr>))"
  by (simp add: find_line_def Let_def)

lemma gc_write_geometry [simp]:
  "line_size (snd (gc_write c a d)) = line_size c"
  "num_sets (snd (gc_write c a d)) = num_sets c"
  "fst (gc_write c a d) = True"
  by (simp_all add: gc_write_def find_line_def allocate_line_def set_slot_def Let_def
        split: option.splits prod.splits)

lemma gc_write_sets:
  fixes c :: GPUCache and a :: u64 and d :: "u8 list"
  assumes wf: "cache_wf c"
  defines "si \<equiv> unat (get_set_index c a)"
  defines "st \<equiv> cache_sets c ! si"
  defines "off \<equiv> unat (a mod line_size c)"
  defines "k \<equiv> min (length d) (unat (line_size c) - off)"
  shows "\<exists>w l old. w < length st \<and> (\<forall>j<w. \<not> slot_matches (line_base c a) (st ! j)) \<and>
           valid l \<and> address l = line_base c a \<and> length old = unat (line_size c) \<and>
           data l = take off old @ take k d @ drop (off + k) old \<and>
           cache_sets (snd (gc_write c a d)) = (cache_sets c)[si := st[w := Some l]]"
proof -
  let ?b = "line_base c a"
  let ?c1 = "c\<lparr>access_count := access_count c + 1\<rparr>"
  have si: "si < length (cache_sets c)" unfolding si_def by (rule set_index_in_range [OF wf])
  have ls: "0 < line_size c" using wf by (simp add: cache_wf_def)
  note ob = offset_bounds [OF ls, of a]
  have k: "min (length d) (unat (line_size c - a mod line_size c)) = k"
    by (simp add: k_def off_def ob)
  show ?thesis
  proof (cases "find_way ?b st")
    case None
    define w where "w = (case find_empty st of Some w \<Rightarrow> w | None \<Rightarrow> min_element lru_less st)"
    have ne: "st \<noteq> []" unfolding st_def by (rule cache_wf_set(1) [OF wf si])
    have w: "w < length st"
      unfolding w_def using find_empty_Some [of st] min_element_bound [OF ne, of lru_less]
      by (auto split: option.splits)
    define old :: "u8 list" where "old = replicate (unat (line_size c)) 0"
    define l where "l = \<lparr>address = ?b, data = take off old @ take k d @ drop (off + k) old,
       valid = True, dirty = True, access_time = access_count c + 1\<rparr>"
    have fl: "find_line ?c1 a = (None, ?c1)"
      using None by (intro find_line_None) (simp add: st_def si_def)
    have al: "allocate_line ?c1 a =
        (((si, w), \<lparr>address = ?b, data = old, valid = True, dirty = False,
                    access_time = access_count c + 1\<rparr>),
         set_slot ?c1 si w \<lparr>address = ?b, data = old, valid = True, dirty = False,
                    access_time = access_count c + 1\<rparr>)"
      unfolding w_def st_def si_def old_def
      by (simp add: allocate_line_def Let_def CacheLine_new_def)
    have "cache_sets (snd (gc_write c a d)) = (cache_sets c)[si := st[w := Some l]]"
      using si w
      by (simp add: gc_write_def fl al Let_def l_def k off_def st_def)
    moreover have "\<forall>j<w. \<not> slot_matches ?b (st ! j)"
      using find_way_None [OF None] w by simp
    ultimately show ?thesis using w by (intro exI [of _ w] exI [of _ l] exI [of _ old]) (simp add: l_def old_def)
  next
    case (Some p)
    obtain w l0 where p: "p = (w, l0)" by (cases p)
    note f = find_way_Some [OF Some [unfolded p]]
    define old where "old = data l0"
    define l where "l = l0\<lparr>access_time := access_count c + 1, data := take off old @ take k d @ drop (off + k) old, dirty := True\<rparr>"
    have fl: "find_line ?c1 a = (Some ((si, w), l0\<lparr>access_time := access_count c + 1\<rparr>),
           set_slot ?c1 si w (l0\<lparr>access_time := access_count c + 1\<rparr>))"
      using find_line_Some [of ?c1 a w l0] Some p by (simp add: st_def si_def)
    have "cache_sets (snd (gc_write c a d)) = (cache_sets c)[si := st[w := Some l]]"
      using si f
      by (simp add: gc_write_def fl Let_def l_def old_def k off_def st_def)
    moreover have "length old = unat (line_size c)"
      unfolding old_def using cache_wf_set(2) [OF wf si, of w l0] f by (simp add: st_def)
    ultimately show ?thesis using f by (intro exI [of _ w] exI [of _ l] exI [of _ old]) (simp add: l_def)
  qed
qed

lemma gc_write_line_holds:
  assumes wf: "cache_wf c"
  shows "line_holds (snd (gc_write c a d)) a
           (take (min (length d) (unat (line_size c) - unat (a mod line_size c))) d)"
proof -
  let ?si = "unat (get_set_index c a)" and ?c' = "snd (gc_write c a d)"
  let ?off = "unat (a mod line_size c)"
  let ?k = "min (length d) (unat (line_size c) - ?off)"
  obtain w l old where h:
    "w < length (cache_sets c ! ?si)"
    "\<forall>j<w. \<not> slot_matches (line_base c a) (cache_sets c ! ?si ! j)"
    "valid l" "address l = line_base c a" "length old = unat (line_size c)"
    "data l = take ?off old @ take ?k d @ drop (?off + ?k) old"
    "cache_sets ?c' = (cache_sets c)[?si := (cache_sets c ! ?si)[w := Some l]]"
    using gc_write_sets [OF wf, of a d] by blast
  have si: "?si < length (cache_sets c)" by (rule set_index_in_range [OF wf])
  have ls: "0 < line_size c" using wf by (simp add: cache_wf_def)
  have geo: "line_base ?c' a = line_base c a" "get_set_index ?c' a = get_set_index c a"
    by (simp_all add: line_base_def get_set_index_def)
  have st': "cache_sets ?c' ! ?si = (cache_sets c ! ?si)[w := Some l]"
    using h(7) si by simp
  have fw: "find_way (line_base c a) ((cache_sets c ! ?si)[w := Some l]) = Some (w, l)"
    using h(1-4) by (intro find_way_first) simp_all
  have off: "?off < unat (line_size c)" by (rule offset_bounds(1) [OF ls])
  have lsz: "line_size ?c' = line_size c"
    by (simp add: gc_write_geometry)
  have "take ?k (drop ?off (data l)) = take ?k d"
    using h(5,6) off by simp
  then show ?thesis
    by (simp add: line_holds_def geo lsz st' fw)
qed

lemma gc_read_line_holds:
  assumes lh: "line_holds c a bs" and len: "length buf = length bs"
      and fits: "length bs \<le> unat (line_size c) - unat (a mod line_size c)"
      and ls: "0 < line_size c"
  shows "fst (gc_read c a buf) = True"
    and "fst (snd (gc_read c a buf)) = bs"
proof -
  let ?c1 = "c\<lparr>access_count := access_count c + 1\<rparr>"
  let ?si = "unat (get_set_index c a)"
  obtain w l where f: "find_way (line_base c a) (cache_sets c ! ?si) = Some (w, l)"
    using lh by (auto simp: line_holds_def split: option.splits)
  have d: "take (length bs) (drop (unat (a mod line_size c)) (data l)) = bs"
    using lh f by (simp add: line_holds_def)
  have k: "min (length bs) (unat (line_size c) - unat (a mod line_size c)) = length bs"
    using fits by simp
  have fl: "find_line ?c1 a = (Some ((?si, w), l\<lparr>access_time := access_count c + 1\<rparr>),
           set_slot ?c1 ?si w (l\<lparr>access_time := access_count c + 1\<rparr>))"
    using find_line_Some [of ?c1 a w l] f by simp
  note ob = offset_bounds [OF ls, of a]
  show "fst (gc_read c a buf) = True"
    by (simp add: gc_read_def fl Let_def)
  show "fst (snd (gc_read c a buf)) = bs"
    using d by (simp add: gc_read_def fl Let_def len ob k)
qed

lemma line_holds_cong:
  assumes "line_size c' = line_size c" "num_sets c' = num_sets c"
      "cache_sets c' ! unat (get_set_index c a) = cache_sets c ! unat (get_set_index c a)"
  shows "line_holds c' a d = line_holds c a d"
  using assms
  by (simp add: line_holds_def line_base_def get_set_index_def
        cong: option.case_cong prod.case_cong)

lemma gc_read_other_set:
  assumes "get_set_index c b \<noteq> get_set_index c a"
  shows "line_size (snd (snd (gc_read c b buf))) = line_size c"
    and "num_sets (snd (snd (gc_read c b buf))) = num_sets c"
    and "cache_sets (snd (snd (gc_read c b buf))) ! unat (get_set_index c a)
           = cache_sets c ! unat (get_set_index c a)"
proof -
  have ne: "unat (get_set_index c b) \<noteq> unat (get_set_index c a)"
    using assms by (simp add: word_unat_eq_iff)
  show "line_size (snd (snd (gc_read c b buf))) = line_size c"
    and "num_sets (snd (snd (gc_read c b buf))) = num_sets c"
    by (simp_all add: gc_read_def find_line_def Let_def split: option.splits prod.splits)
  show "cache_sets (snd (snd (gc_read c b buf))) ! unat (get_set_index c a)
           = cache_sets c ! unat (get_set_index c a)"
    using ne
    by (simp add: gc_read_def find_line_def Let_def split: option.splits prod.splits)
qed

lemma gc_write_other_set:
  assumes "get_set_index c b \<noteq> get_set_index c a"
  shows "cache_sets (snd (gc_write c b d)) ! unat (get_set_index c a)
           = cache_sets c ! unat (get_set_index c a)"
proof -
  have ne: "unat (get_set_index c b) \<noteq> unat (get_set_index c a)"
    using assms by (simp add: word_unat_eq_iff)
  show ?thesis
    using ne
    by (simp add: gc_write_def find_line_def allocate_line_def Let_def
          split: option.splits prod.splits)
qed

lemma same_set_refl: "same_set c c a"
  by (simp add: same_set_def)

lemma same_set_trans: "same_set c'' c' a \<Longrightarrow> same_set c' c a \<Longrightarrow> same_set c'' c a"
  by (simp add: same_set_def get_set_index_def)

lemma same_set_index: "same_set c' c a \<Longrightarrow> get_set_index c' x = get_set_index c x"
  by (simp add: same_set_def get_set_index_def)

lemma same_set_line_holds: "same_set c' c a \<Longrightarrow> line_holds c' a d = line_holds c a d"
  by (rule line_holds_cong) (simp_all add: same_set_def)

lemma gc_read_same_set:
  "get_set_index c b \<noteq> get_set_index c a \<Longrightarrow> same_set (snd (snd (gc_read c b buf))) c a"
  by (simp add: same_set_def gc_read_other_set)

lemma gc_write_same_set:
  "get_set_index c b \<noteq> get_set_index c a \<Longrightarrow> same_set (snd (gc_write c b d)) c a"
  by (simp add: same_set_def gc_write_other_set)

lemma mh_read_same_set:
  assumes ne: "get_set_index (l1_cache m) b \<noteq> get_set_index (l1_cache m) a"
  shows "same_set (l1_cache (snd (snd (mh_read m b buf)))) (l1_cache m) a"
proof -
  obtain h1 buf1 c1 where r1: "gc_read (l1_cache m) b buf = (h1, buf1, c1)"
    by (cases "gc_read (l1_cache m) b buf")
  have s1: "same_set c1 (l1_cache m) a"
    using gc_read_same_set [OF ne, of buf] r1 by simp
  have ne1: "get_set_index c1 b \<noteq> get_set_index c1 a"
    using ne same_set_index [OF s1] by simp
  have s2: "same_set (snd (gc_write c1 b x)) (l1_cache m) a" for x
    by (rule same_set_trans [OF _ s1])
       (use gc_write_same_set [OF ne1] same_set_index [OF s1] in \<open>simp add: same_set_def\<close>)
  show ?thesis
    using s1 s2 r1
    by (simp add: mh_read_def Let_def split: prod.splits)
qed

lemma mh_write_same_set:
  assumes ne: "get_set_index (l1_cache m) b \<noteq> get_set_index (l1_cache m) a"
  shows "same_set (l1_cache (snd (mh_write m b d))) (l1_cache m) a"
  using gc_write_same_set [OF ne, of d]
  by (simp add: mh_write_def Let_def)

lemma mh_accesses_same_set:
  assumes "list_all (\<lambda>op. get_set_index (l1_cache m) (access_addr op)
                          \<noteq> get_set_index (l1_cache m) a) ops"
  shows "same_set (l1_cache (mh_accesses m ops)) (l1_cache m) a"
  using assms unfolding mh_accesses_def
proof (induction ops arbitrary: m)
  case Nil
  then show ?case by (simp add: same_set_refl)
next
  case (Cons op ops)
  have ne: "get_set_index (l1_cache m) (access_addr op) \<noteq> get_set_index (l1_cache m) a"
    using Cons.prems by simp
  have s: "same_set (l1_cache (mh_access_step m op)) (l1_cache m) a"
    using ne by (cases op) (simp_all add: mh_read_same_set mh_write_same_set)
  have "list_all (\<lambda>x. get_set_index (l1_cache (mh_access_step m op)) (access_addr x)
                          \<noteq> get_set_index (l1_cache (mh_access_step m op)) a) ops"
    using Cons.prems by (simp add: same_set_index [OF s])
  from Cons.IH [OF this] have
    "same_set (l1_cache (foldl mh_access_step (mh_access_step m op) ops))
       (l1_cache (mh_access_step m op)) a" .
  then show ?case using s by (simp add: same_set_def get_set_index_def)
qed

lemma mh_read_l1_hit:
  assumes "fst (gc_read (l1_cache m) a buf) = True"
  shows "fst (mh_read m a buf) = True"
    and "fst (snd (mh_read m a buf)) = fst (snd (gc_read (l1_cache m) a buf))"
proof -
  obtain h1 buf1 c1 where r1: "gc_read (l1_cache m) a buf = (h1, buf1, c1)"
    by (cases "gc_read (l1_cache m) a buf")
  then have "h1" using assms by simp
  then show "fst (mh_read m a buf) = True"
    and "fst (snd (mh_read m a buf)) = fst (snd (gc_read (l1_cache m) a buf))"
    using r1 by (simp_all add: mh_read_def Let_def)
qed

lemma cache_wf_new:
  assumes "0 < lsize" "0 < assoc" "0 < csize div (lsize * assoc)"
  shows "cache_wf (GPUCache_new csize lsize assoc)"
proof -
  have "0 < unat assoc" using assms(2) by (simp add: unat_gt_0 word_neq_0_conv)
  then show ?thesis
    using assms by (simp add: cache_wf_def GPUCache_new_def Let_def list_all_iff)
qed

lemma mh_new_wf: "cache_wf (l1_cache MemoryHierarchy_new)" "cache_wf (l2_cache MemoryHierarchy_new)"
  by (simp_all add: MemoryHierarchy_new_def cache_wf_new)

section \<open>Evaluation on concrete states\<close>

text \<open>
  The slots of a set are unfolded to an explicit list when a concrete state is
  evaluated; the vector of sets and the VRAM vector stay symbolic.
\<close>

lemma replicate_slots:
  "replicate (numeral k) (None :: CacheLine option) = None # replicate (pred_numeral k) None"
  by (simp add: numeral_eq_Suc)

lemmas gc_defs = gc_write_def gc_read_def gc_invalidate_def find_line_def allocate_line_def
  GPUCache_new_def get_set_index_def line_base_def set_slot_def CacheLine_new_def
  replicate_slots

lemmas mh_defs = mh_allocate_def MemoryHierarchy_new_def mh_write_def mh_read_def in_vram_def
  mh_deallocate_def

section \<open>The bump allocator\<close>

lemma and_not_eq_diff: "(y :: u64) AND NOT z = y - (y AND z)"
proof -
  have "y - (y AND z) = y AND NOT (y AND z)"
    by (rule disjunctive_diff) (simp add: bit_and_iff)
  also have "\<dots> = y AND NOT z"
    by (rule bit_eqI) (auto simp: bit_and_iff bit_not_iff bit_or_iff)
  finally show ?thesis by simp
qed

text \<open>Rounding up to a multiple of 16 adds between 0 and 15 when it does not wrap.\<close>

lemma align16_bounds:
  fixes x :: u64
  assumes "x \<le> 2 ^ 63"
  shows "unat x \<le> unat ((x + 15) AND NOT 15)"
    and "unat ((x + 15) AND NOT 15) \<le> unat x + 15"
proof -
  let ?y = "x + 15"
  have ux: "unat x \<le> 2 ^ 63" using assms by (simp add: word_le_nat_alt)
  have uy: "unat ?y = unat x + 15" using ux by (simp add: unat_word_ariths)
  have "?y AND 15 \<le> 15" by (simp add: word_and_le1)
  then have le15: "unat (?y AND 15) \<le> 15"
    by (simp add: word_le_nat_alt)
  have "?y AND 15 \<le> ?y" by (simp add: word_and_le2)
  then have "unat (?y - (?y AND 15)) = unat ?y - unat (?y AND 15)"
    by (simp add: unat_sub)
  then have e: "unat (?y AND NOT 15) = unat x + 15 - unat (?y AND 15)"
    by (simp only: and_not_eq_diff [of ?y 15] uy)
  show "unat x \<le> unat ((x + 15) AND NOT 15)" using e le15 by linarith
  show "unat ((x + 15) AND NOT 15) \<le> unat x + 15" using e by linarith
qed

lemma mh_allocate_cases:
  assumes ok: "alloc_ok m" and pos: "0 < sz" and le: "sz \<le> 2 ^ 63"
      and al: "mh_allocate m sz = (a, m')"
  shows "alloc_ok m' \<and> next_allocation_address m \<le> next_allocation_address m' \<and>
         (a = 0 \<or> (a = next_allocation_address m \<and> a < next_allocation_address m'))"
proof -
  let ?n = "next_allocation_address m" and ?s = "(sz + 15) AND NOT 15"
  have vl: "length (vram m) \<le> 2 ^ 32" and nl: "unat ?n \<le> length (vram m)"
    using ok by (simp_all add: alloc_ok_def)
  have b: "unat sz \<le> unat ?s" "unat ?s \<le> unat sz + 15"
    using align16_bounds [OF le] by blast+
  have usz: "0 < unat sz" "unat sz \<le> 2 ^ 63"
    using pos le by (simp_all add: word_le_nat_alt word_less_nat_alt)
  have sum: "unat (?n + ?s) = unat ?n + unat ?s"
    using b usz vl nl by (simp add: unat_word_ariths)
  have vw: "unat (word_of_nat (length (vram m)) :: u64) = length (vram m)"
    using vl by (simp add: unat_of_nat)
  show ?thesis
  proof (cases "?n + ?s > word_of_nat (length (vram m))")
    case True
    then show ?thesis using al ok by (simp add: mh_allocate_def Let_def)
  next
    case False
    then have fit: "unat ?n + unat ?s \<le> length (vram m)"
      using sum vw by (simp add: word_less_nat_alt)
    have m': "m' = m\<lparr>allocations := (allocations m)(?n \<mapsto> ?s),
                      next_allocation_address := ?n + ?s\<rparr>"
      and a: "a = ?n"
      using al False by (auto simp add: mh_allocate_def Let_def)
    have "?n < ?n + ?s" using sum b usz by (simp add: word_less_nat_alt)
    then show ?thesis using m' a fit vl sum by (simp add: alloc_ok_def)
  qed
qed

lemma mh_allocate_all_lower:
  assumes "alloc_ok m" "list_all (\<lambda>sz. 0 < sz \<and> sz \<le> 2 ^ 63) szs"
  shows "\<forall>x \<in> set (mh_allocate_all m szs). x = 0 \<or> next_allocation_address m \<le> x"
  using assms
proof (induction szs arbitrary: m)
  case Nil
  then show ?case by simp
next
  case (Cons sz szs)
  obtain a m' where al: "mh_allocate m sz = (a, m')" by (cases "mh_allocate m sz")
  from Cons.prems have p: "0 < sz" "sz \<le> 2 ^ 63" by simp_all
  note c = mh_allocate_cases [OF Cons.prems(1) p al]
  have ih: "\<forall>x \<in> set (mh_allocate_all m' szs). x = 0 \<or> next_allocation_address m' \<le> x"
    using Cons.IH [of m'] c Cons.prems(2) by simp
  show ?case using al c ih by (auto simp: Let_def)
qed

lemma alloc_ok_new: "alloc_ok MemoryHierarchy_new"
  by (simp add: alloc_ok_def MemoryHierarchy_new_def)

text \<open>
  C5, as stated, fails: a request for zero bytes succeeds without moving the bump
  pointer, so two such calls on a fresh hierarchy return the same nonzero address.
\<close>

theorem allocate_zero_size_repeats_address:
  "mh_allocate_all MemoryHierarchy_new [0, 0] = [0x10000000, 0x10000000]"
  by (simp add: mh_allocate_def MemoryHierarchy_new_def Let_def)

text \<open>
  C5, amended. From a state whose bump pointer lies inside a VRAM of at most 4 GiB, for
  every sequence of \<open>allocate\<close> calls with sizes between 1 and \<open>2^63\<close> bytes, the nonzero
  (successful) return values are strictly increasing in call order.
\<close>

theorem allocate_strictly_increasing:
  assumes "alloc_ok m" "list_all (\<lambda>sz. 0 < sz \<and> sz \<le> 2 ^ 63) szs"
  shows "sorted_wrt (<) (filter (\<lambda>a. a \<noteq> 0) (mh_allocate_all m szs))"
  using assms
proof (induction szs arbitrary: m)
  case Nil
  then show ?case by simp
next
  case (Cons sz szs)
  obtain a m' where al: "mh_allocate m sz = (a, m')" by (cases "mh_allocate m sz")
  from Cons.prems have p: "0 < sz" "sz \<le> 2 ^ 63" by simp_all
  note c = mh_allocate_cases [OF Cons.prems(1) p al]
  have ih: "sorted_wrt (<) (filter (\<lambda>a. a \<noteq> 0) (mh_allocate_all m' szs))"
    using Cons.IH [of m'] c Cons.prems(2) by simp
  have lo: "\<forall>x \<in> set (mh_allocate_all m' szs). x = 0 \<or> next_allocation_address m' \<le> x"
    using mh_allocate_all_lower [of m' szs] c Cons.prems(2) by simp
  show ?case using al c ih lo by (auto simp: Let_def)
qed

theorem allocate_strictly_increasing_witness:
  "alloc_ok MemoryHierarchy_new
   \<and> list_all (\<lambda>sz. 0 < sz \<and> sz \<le> 2 ^ 63) [1024, 2048, 1048576 :: u64]
   \<and> mh_allocate_all MemoryHierarchy_new [1024, 2048, 1048576]
       = [0x10000000, 0x10000400, 0x10000C00]
   \<and> sorted_wrt (<) (filter (\<lambda>a. a \<noteq> 0)
        (mh_allocate_all MemoryHierarchy_new [1024, 2048, 1048576]))"
proof -
  have h: "list_all (\<lambda>sz. 0 < sz \<and> sz \<le> 2 ^ 63) [1024, 2048, 1048576 :: u64]"
    by simp
  have r: "mh_allocate_all MemoryHierarchy_new [1024, 2048, 1048576]
             = [0x10000000, 0x10000400, 0x10000C00]"
    by (simp add: mh_allocate_def MemoryHierarchy_new_def Let_def)
  show ?thesis
    using allocate_strictly_increasing [OF alloc_ok_new h] alloc_ok_new h r by simp
qed

section \<open>The invariant of the hierarchy\<close>

lemma list_all_update: "list_all P xs \<Longrightarrow> P y \<Longrightarrow> list_all P (xs[i := y])"
  using set_update_subset_insert [of xs i y] by (auto simp: list_all_iff)

lemma cache_wf_fields:
  assumes "line_size c' = line_size c" "num_sets c' = num_sets c" "cache_sets c' = cache_sets c"
  shows "cache_wf c' = cache_wf c"
  using assms by (simp add: cache_wf_def)

lemma cache_wf_set_slot:
  assumes wf: "cache_wf c" and len: "length (data l) = unat (line_size c)"
  shows "cache_wf (set_slot c si w l)"
proof (cases "si < length (cache_sets c)")
  case False
  then have "cache_sets (set_slot c si w l) = cache_sets c"
    by (simp add: list_update_beyond)
  then have "cache_wf (set_slot c si w l) = cache_wf c"
    by (intro cache_wf_fields) simp_all
  then show ?thesis using wf by simp
next
  case True
  let ?st = "cache_sets c ! si"
  let ?P = "slot_ok (line_size c)"
  have st: "?st \<noteq> []" "list_all ?P ?st"
    using wf True by (auto simp: cache_wf_def list_all_length)
  have "(?st[w := Some l]) \<noteq> [] \<and> list_all ?P (?st[w := Some l])"
    using st len by (simp add: list_all_update)
  then have "list_all (\<lambda>st. st \<noteq> [] \<and> list_all ?P st) ((cache_sets c)[si := ?st[w := Some l]])"
    using wf by (intro list_all_update) (simp_all add: cache_wf_def)
  then show ?thesis using wf by (simp add: cache_wf_def)
qed

lemma find_line_wf:
  assumes wf: "cache_wf c"
  shows "cache_wf (snd (find_line c a))"
    and "fst (find_line c a) = Some (p, l) \<Longrightarrow> length (data l) = unat (line_size c)"
proof -
  let ?si = "unat (get_set_index c a)"
  have si: "?si < length (cache_sets c)" by (rule set_index_in_range [OF wf])
  have *: "cache_wf (snd (find_line c a)) \<and>
           (fst (find_line c a) = Some (p, l) \<longrightarrow> length (data l) = unat (line_size c))"
  proof (cases "find_way (line_base c a) (cache_sets c ! ?si)")
    case None
    then show ?thesis using wf by (simp add: find_line_None)
  next
    case (Some q)
    obtain w l0 where q: "q = (w, l0)" by (cases q)
    note f = find_way_Some [OF Some [unfolded q]]
    have len: "length (data l0) = unat (line_size c)"
      using cache_wf_set(2) [OF wf si, of w l0] f by simp
    show ?thesis
      using len cache_wf_set_slot [OF wf, of "l0\<lparr>access_time := access_count c\<rparr>" ?si w]
      by (auto simp: find_line_Some [OF Some [unfolded q]])
  qed
  show "cache_wf (snd (find_line c a))" using * by simp
  show "fst (find_line c a) = Some (p, l) \<Longrightarrow> length (data l) = unat (line_size c)"
    using * by simp
qed

lemma cache_wf_counter_upd [simp]:
  "cache_wf (c\<lparr>access_count := x\<rparr>) = cache_wf c"
  "cache_wf (c\<lparr>hit_count := x\<rparr>) = cache_wf c"
  "cache_wf (c\<lparr>miss_count := x\<rparr>) = cache_wf c"
  by (simp_all add: cache_wf_def)

lemma find_line_geometry [simp]:
  "line_size (snd (find_line c a)) = line_size c"
  "num_sets (snd (find_line c a)) = num_sets c"
  by (simp_all add: find_line_def Let_def split: option.splits prod.splits)

lemma gc_read_wf:
  assumes wf: "cache_wf c"
  shows "cache_wf (snd (snd (gc_read c a buf)))"
    and "length (fst (snd (gc_read c a buf))) = length buf"
proof -
  let ?c1 = "c\<lparr>access_count := access_count c + 1\<rparr>"
  have wf1: "cache_wf ?c1" using wf by simp
  obtain r c2 where f: "find_line ?c1 a = (r, c2)" by (cases "find_line ?c1 a")
  have wf2: "cache_wf c2" using find_line_wf(1) [OF wf1, of a] f by simp
  have ls2: "line_size c2 = line_size c" using find_line_geometry(1) [of ?c1 a] f by simp
  have ls: "0 < line_size c" using wf by (simp add: cache_wf_def)
  note ob = offset_bounds [OF ls, of a]
  show "cache_wf (snd (snd (gc_read c a buf)))"
    using wf2 f by (cases r) (auto simp: gc_read_def Let_def)
  show "length (fst (snd (gc_read c a buf))) = length buf"
  proof (cases r)
    case None
    then show ?thesis using f by (simp add: gc_read_def)
  next
    case (Some q)
    obtain p l where q: "q = (p, l)" by (cases q)
    have len: "length (data l) = unat (line_size c)"
      using find_line_wf(2) [OF wf1, of a p l] f Some q by simp
    show ?thesis
      using f Some q len ob by (simp add: gc_read_def Let_def ls2)
  qed
qed

lemma gc_write_wf:
  assumes wf: "cache_wf c"
  shows "cache_wf (snd (gc_write c a d))"
proof -
  let ?si = "unat (get_set_index c a)"
  let ?off = "unat (a mod line_size c)"
  let ?k = "min (length d) (unat (line_size c) - ?off)"
  obtain w l old where h:
    "length old = unat (line_size c)"
    "data l = take ?off old @ take ?k d @ drop (?off + ?k) old"
    "cache_sets (snd (gc_write c a d)) = (cache_sets c)[?si := (cache_sets c ! ?si)[w := Some l]]"
    using gc_write_sets [OF wf, of a d] by blast
  have ls: "0 < line_size c" using wf by (simp add: cache_wf_def)
  have off: "?off < unat (line_size c)" by (rule offset_bounds(1) [OF ls])
  have len: "length (data l) = unat (line_size c)"
    using h(1,2) off by simp
  have "cache_wf (snd (gc_write c a d)) = cache_wf (set_slot c ?si w l)"
    by (rule cache_wf_fields) (simp_all add: h(3))
  then show ?thesis using cache_wf_set_slot [OF wf len] by simp
qed

lemma gc_invalidate_wf:
  assumes wf: "cache_wf c"
  shows "cache_wf (gc_invalidate c a)"
proof -
  obtain r c2 where f: "find_line c a = (r, c2)" by (cases "find_line c a")
  have wf2: "cache_wf c2" using find_line_wf(1) [OF wf, of a] f by simp
  have ls2: "line_size c2 = line_size c" using find_line_geometry(1) [of c a] f by simp
  show ?thesis
  proof (cases r)
    case None
    then show ?thesis using f wf2 by (simp add: gc_invalidate_def)
  next
    case (Some q)
    obtain si w l where q: "q = ((si, w), l)" by (cases q) auto
    have len: "length (data l) = unat (line_size c)"
      using find_line_wf(2) [OF wf, of a "(si, w)" l] f Some q by simp
    have "cache_wf (set_slot c2 si w (l\<lparr>valid := False, dirty := False\<rparr>))"
      using len ls2 by (intro cache_wf_set_slot [OF wf2]) simp
    then show ?thesis using f Some q by (simp add: gc_invalidate_def)
  qed
qed

lemma mh_read_frame [simp]:
  "vram (snd (snd (mh_read m a buf))) = vram m"
  "next_allocation_address (snd (snd (mh_read m a buf))) = next_allocation_address m"
  "allocations (snd (snd (mh_read m a buf))) = allocations m"
  by (simp_all add: mh_read_def Let_def split: prod.splits)

lemma in_vram_nat:
  assumes "length (vram m) \<le> 2 ^ 32" "unat a + n \<le> length (vram m)"
  shows "in_vram m a n"
proof -
  have n: "n < 2 ^ 64" using assms by simp
  have "unat (word_of_nat n :: u64) = n" using n by (simp add: unat_of_nat)
  moreover have "unat (word_of_nat (length (vram m)) :: u64) = length (vram m)"
    using assms(1) by (simp add: unat_of_nat)
  moreover have "unat (a + word_of_nat n) = unat a + n"
    using assms n by (simp add: unat_word_ariths unat_of_nat)
  ultimately show ?thesis using assms(2) by (simp add: in_vram_def word_le_nat_alt)
qed

lemma mh_read_inv:
  assumes inv: "mem_inv m"
  shows "mem_inv (snd (snd (mh_read m a buf)))"
proof -
  have wf1: "cache_wf (l1_cache m)" and wf2: "cache_wf (l2_cache m)"
    using inv by (simp_all add: mem_inv_def)
  obtain h1 buf1 c1 where r1: "gc_read (l1_cache m) a buf = (h1, buf1, c1)"
    by (cases "gc_read (l1_cache m) a buf")
  obtain h2 buf2 c2 where r2: "gc_read (l2_cache m) a buf1 = (h2, buf2, c2)"
    by (cases "gc_read (l2_cache m) a buf1")
  have c1: "cache_wf c1" using gc_read_wf(1) [OF wf1, of a buf] r1 by simp
  have c2: "cache_wf c2" using gc_read_wf(1) [OF wf2, of a buf1] r2 by simp
  have w1: "cache_wf (snd (gc_write c1 a x))" for x by (rule gc_write_wf [OF c1])
  have w2: "cache_wf (snd (gc_write c2 a x))" for x by (rule gc_write_wf [OF c2])
  have "cache_wf (l1_cache (snd (snd (mh_read m a buf))))
        \<and> cache_wf (l2_cache (snd (snd (mh_read m a buf))))"
    using r1 r2 c1 c2 w1 w2 wf2 by (simp add: mh_read_def Let_def)
  then show ?thesis
    using inv by (simp add: mem_inv_def alloc_ok_def allocs_in_vram_def)
qed

lemma mh_read_ok:
  assumes inv: "mem_inv m" and inb: "unat a + length buf \<le> length (vram m)"
  shows "fst (mh_read m a buf) = True"
    and "length (fst (snd (mh_read m a buf))) = length buf"
proof -
  have wf1: "cache_wf (l1_cache m)" and wf2: "cache_wf (l2_cache m)"
    and vl: "length (vram m) \<le> 2 ^ 32"
    using inv by (simp_all add: mem_inv_def alloc_ok_def)
  obtain h1 buf1 c1 where r1: "gc_read (l1_cache m) a buf = (h1, buf1, c1)"
    by (cases "gc_read (l1_cache m) a buf")
  obtain h2 buf2 c2 where r2: "gc_read (l2_cache m) a buf1 = (h2, buf2, c2)"
    by (cases "gc_read (l2_cache m) a buf1")
  have l1: "length buf1 = length buf" using gc_read_wf(2) [OF wf1, of a buf] r1 by simp
  have l2: "length buf2 = length buf" using gc_read_wf(2) [OF wf2, of a buf1] r2 l1 by simp
  have iv: "in_vram m a (length buf2)"
    using in_vram_nat [OF vl, of a "length buf"] inb l2 by simp
  show "fst (mh_read m a buf) = True"
    using r1 r2 iv by (simp add: mh_read_def Let_def)
  show "length (fst (snd (mh_read m a buf))) = length buf"
    using r1 r2 iv l1 l2 inb by (simp add: mh_read_def Let_def)
qed

lemma mh_allocate_inv:
  assumes inv: "mem_inv m" and pos: "0 < sz" and le: "sz \<le> 2 ^ 63"
      and al: "mh_allocate m sz = (a, m')"
  shows "mem_inv m'" and "vram m' = vram m"
    and "a \<noteq> 0 \<Longrightarrow> unat a + unat sz \<le> length (vram m')"
proof -
  let ?n = "next_allocation_address m" and ?s = "(sz + 15) AND NOT 15"
  have ok: "alloc_ok m" using inv by (simp add: mem_inv_def)
  have vl: "length (vram m) \<le> 2 ^ 32" and nl: "unat ?n \<le> length (vram m)"
    using ok by (simp_all add: alloc_ok_def)
  have b: "unat sz \<le> unat ?s" "unat ?s \<le> unat sz + 15"
    using align16_bounds [OF le] by blast+
  have usz: "unat sz \<le> 2 ^ 63" using le by (simp add: word_le_nat_alt)
  have sum: "unat (?n + ?s) = unat ?n + unat ?s"
    using b usz vl nl by (simp add: unat_word_ariths)
  have vw: "unat (word_of_nat (length (vram m)) :: u64) = length (vram m)"
    using vl by (simp add: unat_of_nat)
  note c = mh_allocate_cases [OF ok pos le al]
  have *: "mem_inv m' \<and> vram m' = vram m \<and> (a \<noteq> 0 \<longrightarrow> unat a + unat sz \<le> length (vram m'))"
  proof (cases "?n + ?s > word_of_nat (length (vram m))")
    case True
    then have "a = 0" "m' = m" using al by (simp_all add: mh_allocate_def Let_def)
    then show ?thesis using inv by simp
  next
    case False
    then have fit: "unat ?n + unat ?s \<le> length (vram m)"
      using sum vw by (simp add: word_less_nat_alt)
    have m': "m' = m\<lparr>allocations := (allocations m)(?n \<mapsto> ?s),
                      next_allocation_address := ?n + ?s\<rparr>"
      and a: "a = ?n"
      using al False by (auto simp add: mh_allocate_def Let_def)
    have "allocs_in_vram m'"
      using inv fit by (auto simp: m' mem_inv_def allocs_in_vram_def)
    moreover have "cache_wf (l1_cache m')" "cache_wf (l2_cache m')" "vram m' = vram m"
      using inv by (simp_all add: m' mem_inv_def)
    ultimately show ?thesis using c a fit b by (simp add: mem_inv_def)
  qed
  show "mem_inv m'" "vram m' = vram m" using * by simp_all
  show "a \<noteq> 0 \<Longrightarrow> unat a + unat sz \<le> length (vram m')" using * by blast
qed

lemma invalidate_range_returns:
  assumes "cache_wf c1" "cache_wf c2" "unat e \<le> 2 ^ 64 - 64"
  shows "\<exists>c1' c2'. invalidate_range c1 c2 addr e = Some (c1', c2') \<and> cache_wf c1' \<and> cache_wf c2'"
  using assms
proof (induction "unat e - unat addr" arbitrary: addr c1 c2 rule: less_induct)
  case less
  show ?case
  proof (cases "addr < e")
    case False
    then show ?thesis using less.prems by (subst invalidate_range.simps) simp
  next
    case True
    then have lt: "unat addr < unat e" by (simp add: word_less_nat_alt)
    have step: "unat (addr + 64) = unat addr + 64"
      using lt less.prems(3) by (simp add: unat_word_ariths)
    have dec: "unat e - unat (addr + 64) < unat e - unat addr"
      using lt step by simp
    from less.hyps [OF dec gc_invalidate_wf [OF less.prems(1)] gc_invalidate_wf [OF less.prems(2)]
                      less.prems(3)]
    show ?thesis using True by (subst invalidate_range.simps) simp
  qed
qed

lemma mh_deallocate_inv:
  assumes inv: "mem_inv m"
  shows "\<exists>m'. mh_deallocate m a = Some m' \<and> mem_inv m' \<and> vram m' = vram m"
proof (cases "allocations m a")
  case None
  then show ?thesis using inv by (simp add: mh_deallocate_def)
next
  case (Some sz)
  have vl: "length (vram m) \<le> 2 ^ 32" using inv by (simp add: mem_inv_def alloc_ok_def)
  have fit: "unat a + unat sz \<le> length (vram m)"
    using inv Some by (simp add: mem_inv_def allocs_in_vram_def)
  have e: "unat (a + sz) \<le> 2 ^ 64 - 64"
    using fit vl by (simp add: unat_word_ariths)
  obtain c1 c2 where r: "invalidate_range (l1_cache m) (l2_cache m) a (a + sz) = Some (c1, c2)"
    "cache_wf c1" "cache_wf c2"
    using invalidate_range_returns [OF _ _ e, of "l1_cache m" "l2_cache m" a] inv
    by (auto simp: mem_inv_def)
  have "mem_inv (m\<lparr>l1_cache := c1, l2_cache := c2, allocations := (allocations m)(a := None)\<rparr>)"
    using inv r(2,3) by (auto simp: mem_inv_def alloc_ok_def allocs_in_vram_def)
  then show ?thesis using Some r(1) by (simp add: mh_deallocate_def)
qed

lemma mem_inv_new: "mem_inv MemoryHierarchy_new"
  using mh_new_wf alloc_ok_new
  by (simp add: mem_inv_def allocs_in_vram_def) (simp add: MemoryHierarchy_new_def)

section \<open>Deallocation and the cache lines of the freed range\<close>

text \<open>
  C4. The claim asks that every L1 and L2 line covering the freed range is invalidated.
  \<open>deallocate\<close> walks the range in steps of 64 from the allocation base, and the base is
  only 16-aligned, so the line holding the tail of the range is skipped. In the scenario
  the second allocation is \<open>[0x10000010, 0x10000090)\<close>; the walk visits \<open>0x10000010\<close> and
  \<open>0x10000050\<close>; the byte written at \<open>0x10000080\<close> stays in a valid line of L1 and of L2.
  After the deallocation (which returns and erases the record) a read of that byte is an
  L1 hit that delivers the byte cached before the deallocation, and L2 would hit too.
\<close>

theorem deallocate_skips_tail_line:
  "fst (mh_allocate (snd (mh_allocate MemoryHierarchy_new 16)) 128) = 0x10000010
   \<and> map_option
        (\<lambda>m. (allocations m 0x10000010,
              fst (gc_read (l1_cache m) 0x10000080 [0]),
              fst (snd (gc_read (l1_cache m) 0x10000080 [0])),
              fst (gc_read (l2_cache m) 0x10000080 [0]),
              fst (snd (mh_read m 0x10000080 [0])),
              hit_count (l1_cache (snd (snd (mh_read m 0x10000080 [0]))))
                - hit_count (l1_cache m)))
        dealloc_scenario
      = Some (None, True, [0xA5], True, [0xA5], 1)"
  by (simp add: dealloc_scenario_def Let_def mh_defs gc_defs invalidate_range.simps)

section \<open>Write, then read\<close>

text \<open>
  C2, as stated, fails. A hit in L1 copies only the bytes up to the end of the 64-byte
  line and reports success. On a fresh hierarchy, four bytes written at \<open>0x1000003E\<close>
  (offset 62 of its line) and read back at once into a four-byte buffer: the write
  succeeds, the read succeeds, and the last two bytes of the buffer are untouched.
\<close>

theorem write_read_across_line_boundary:
  "fst (mh_write MemoryHierarchy_new 0x1000003E [1, 2, 3, 4]) = True
   \<and> fst (mh_read (snd (mh_write MemoryHierarchy_new 0x1000003E [1, 2, 3, 4]))
            0x1000003E [0, 0, 0, 0]) = True
   \<and> fst (snd (mh_read (snd (mh_write MemoryHierarchy_new 0x1000003E [1, 2, 3, 4]))
            0x1000003E [0, 0, 0, 0])) = [1, 2, 0, 0]"
  by (simp add: Let_def mh_defs gc_defs)

text \<open>
  C2, amended. In a hierarchy whose L1 is well formed, for data \<open>d\<close> that lies inside VRAM
  and inside one L1 line (\<open>a mod line_size + |d| \<le> line_size\<close>), a \<open>write(a, d)\<close> succeeds
  and a later \<open>read(a, buf)\<close> with \<open>|buf| = |d|\<close> succeeds with \<open>buf = d\<close>, whatever reads and
  writes come in between, provided their addresses map to other L1 sets than \<open>a\<close> does.
\<close>

theorem write_read_round_trip_one_line:
  assumes wf: "cache_wf (l1_cache m)"
      and inb: "a + word_of_nat (length d) \<le> (word_of_nat (length (vram m)) :: u64)"
      and fits: "unat (a mod line_size (l1_cache m)) + length d \<le> unat (line_size (l1_cache m))"
      and len: "length buf = length d"
      and other: "list_all (\<lambda>op. get_set_index (l1_cache m) (access_addr op)
                          \<noteq> get_set_index (l1_cache m) a) ops"
  shows "fst (mh_write m a d) = True
         \<and> fst (mh_read (mh_accesses (snd (mh_write m a d)) ops) a buf) = True
         \<and> fst (snd (mh_read (mh_accesses (snd (mh_write m a d)) ops) a buf)) = d"
proof -
  let ?m1 = "snd (mh_write m a d)" and ?c = "l1_cache m"
  let ?m2 = "mh_accesses ?m1 ops"
  have l1: "l1_cache ?m1 = snd (gc_write ?c a d)"
    by (simp add: mh_write_def Let_def)
  have ok: "fst (mh_write m a d) = True"
    using inb by (simp add: mh_write_def Let_def in_vram_def)
  have k: "min (length d) (unat (line_size ?c) - unat (a mod line_size ?c)) = length d"
    using fits by simp
  have lh1: "line_holds (l1_cache ?m1) a d"
    using gc_write_line_holds [OF wf, of a d] by (simp add: l1 k)
  have other1: "list_all (\<lambda>op. get_set_index (l1_cache ?m1) (access_addr op)
                          \<noteq> get_set_index (l1_cache ?m1) a) ops"
    using other by (simp add: l1 get_set_index_def)
  note ss = mh_accesses_same_set [OF other1]
  have lh2: "line_holds (l1_cache ?m2) a d"
    using same_set_line_holds [OF ss] lh1 by simp
  have ls2: "line_size (l1_cache ?m2) = line_size ?c"
    using ss by (simp add: same_set_def l1)
  have pos: "0 < line_size (l1_cache ?m2)"
    using wf by (simp add: ls2 cache_wf_def)
  have fits2: "length d \<le> unat (line_size (l1_cache ?m2))
                              - unat (a mod line_size (l1_cache ?m2))"
    using fits by (simp add: ls2)
  have hit: "fst (gc_read (l1_cache ?m2) a buf) = True"
    by (rule gc_read_line_holds(1) [OF lh2 len fits2 pos])
  have res: "fst (snd (gc_read (l1_cache ?m2) a buf)) = d"
    by (rule gc_read_line_holds(2) [OF lh2 len fits2 pos])
  show ?thesis
    using ok mh_read_l1_hit [OF hit] res by simp
qed

theorem write_read_round_trip_one_line_witness:
  "cache_wf (l1_cache MemoryHierarchy_new)
   \<and> fst (mh_write MemoryHierarchy_new 0x10000000 [0xDE, 0xAD, 0xBE, 0xEF]) = True
   \<and> fst (mh_read (mh_accesses (snd (mh_write MemoryHierarchy_new 0x10000000
                                          [0xDE, 0xAD, 0xBE, 0xEF]))
                      [MWrite 0x10000040 [7], MRead 0x10000080 [0]])
            0x10000000 [0, 0, 0, 0]) = True
   \<and> fst (snd (mh_read (mh_accesses (snd (mh_write MemoryHierarchy_new 0x10000000
                                          [0xDE, 0xAD, 0xBE, 0xEF]))
                      [MWrite 0x10000040 [7], MRead 0x10000080 [0]])
            0x10000000 [0, 0, 0, 0])) = [0xDE, 0xAD, 0xBE, 0xEF]"
proof -
  let ?m = MemoryHierarchy_new and ?a = "0x10000000 :: u64"
  let ?d = "[0xDE, 0xAD, 0xBE, 0xEF] :: u8 list"
  have inb: "?a + word_of_nat (length ?d) \<le> (word_of_nat (length (vram ?m)) :: u64)"
    by (simp add: MemoryHierarchy_new_def)
  have fits: "unat (?a mod line_size (l1_cache ?m)) + length ?d \<le> unat (line_size (l1_cache ?m))"
    by (simp add: MemoryHierarchy_new_def GPUCache_new_def)
  have len: "length ([0, 0, 0, 0] :: u8 list) = length ?d" by simp
  have other: "list_all (\<lambda>op. get_set_index (l1_cache ?m) (access_addr op)
                          \<noteq> get_set_index (l1_cache ?m) ?a)
                 [MWrite 0x10000040 [7], MRead 0x10000080 [0]]"
    by (simp add: MemoryHierarchy_new_def GPUCache_new_def get_set_index_def)
  show ?thesis
    using write_read_round_trip_one_line [OF mh_new_wf(1) inb fits len other] mh_new_wf(1)
    by simp
qed

section \<open>A write beyond the end of VRAM\<close>

text \<open>
  A cache write copies \<open>min(size, line_size - offset)\<close> bytes and touches one line only.
  On a fresh hierarchy \<open>write(0xFFFFFFFE, [1, 2, 3, 4])\<close> ends two bytes beyond VRAM and
  fails; the L1 line (64 bytes, offset 62) and the L2 line (128 bytes, offset 126) found
  for the address hold the bytes 1, 2 and then end, and neither cache has a line for the
  address \<open>0x100000000\<close> of the bytes 3, 4: the caches hold two of \<open>d\<close>'s four bytes.
\<close>

theorem write_out_of_bounds_caches_only_a_prefix:
  "fst (mh_write MemoryHierarchy_new 0xFFFFFFFE [1, 2, 3, 4]) = False
   \<and> line_holds (l1_cache (snd (mh_write MemoryHierarchy_new 0xFFFFFFFE [1, 2, 3, 4])))
        0xFFFFFFFE [1, 2, 3, 4] = False
   \<and> line_holds (l2_cache (snd (mh_write MemoryHierarchy_new 0xFFFFFFFE [1, 2, 3, 4])))
        0xFFFFFFFE [1, 2, 3, 4] = False
   \<and> line_holds (l1_cache (snd (mh_write MemoryHierarchy_new 0xFFFFFFFE [1, 2, 3, 4])))
        0xFFFFFFFE [1, 2] = True
   \<and> line_holds (l2_cache (snd (mh_write MemoryHierarchy_new 0xFFFFFFFE [1, 2, 3, 4])))
        0xFFFFFFFE [1, 2] = True
   \<and> fst (gc_read (l1_cache (snd (mh_write MemoryHierarchy_new 0xFFFFFFFE [1, 2, 3, 4])))
        0x100000000 [0, 0]) = False
   \<and> fst (gc_read (l2_cache (snd (mh_write MemoryHierarchy_new 0xFFFFFFFE [1, 2, 3, 4])))
        0x100000000 [0, 0]) = False"
  by (simp add: line_holds_def mh_defs gc_defs Let_def)

text \<open>
  The bounds test of \<open>write\<close> adds in 64-bit unsigned arithmetic: for the address
  \<open>2^64 - 1\<close> and two bytes the sum wraps to 1 and the test passes, although the write
  ends beyond VRAM.
\<close>

lemma write_bounds_test_wraps:
  "in_vram MemoryHierarchy_new 0xFFFFFFFFFFFFFFFF 2"
  by (simp add: in_vram_def MemoryHierarchy_new_def)

text \<open>
  C7, amended. For every address \<open>a\<close> and data \<open>d\<close> with \<open>vram.len < a + |d| < 2^64\<close> (the
  sum taken in the natural numbers), in a hierarchy with well-formed caches, \<open>write(a, d)\<close>
  returns failure and leaves VRAM as it was, and afterwards the line that L1 finds for
  \<open>a\<close> holds, from \<open>a\<close>'s offset on, the first \<open>min(|d|, line_size - a mod line_size)\<close>
  bytes of \<open>d\<close>, with L1's line size, and the line that L2 finds for \<open>a\<close> does so with L2's
  line size.
\<close>

theorem write_out_of_bounds_still_cached:
  assumes wf1: "cache_wf (l1_cache m)" and wf2: "cache_wf (l2_cache m)"
      and oob: "length (vram m) < unat a + length d"
      and nowrap: "unat a + length d < 2 ^ 64"
  shows "fst (mh_write m a d) = False
         \<and> vram (snd (mh_write m a d)) = vram m
         \<and> line_holds (l1_cache (snd (mh_write m a d))) a
             (take (min (length d) (unat (line_size (l1_cache m))
                                     - unat (a mod line_size (l1_cache m)))) d)
         \<and> line_holds (l2_cache (snd (mh_write m a d))) a
             (take (min (length d) (unat (line_size (l2_cache m))
                                     - unat (a mod line_size (l2_cache m)))) d)"
proof -
  have ld: "length d < 2 ^ 64" and lv: "length (vram m) < 2 ^ 64"
    using oob nowrap by simp_all
  have sum: "unat (a + word_of_nat (length d)) = unat a + length d"
    using ld nowrap by (simp add: unat_word_ariths unat_of_nat)
  have "unat (word_of_nat (length (vram m)) :: u64) = length (vram m)"
    using lv by (simp add: unat_of_nat)
  then have nin: "\<not> in_vram m a (length d)"
    using oob sum by (simp add: in_vram_def word_le_nat_alt)
  have "l1_cache (snd (mh_write m a d)) = snd (gc_write (l1_cache m) a d)"
       "l2_cache (snd (mh_write m a d)) = snd (gc_write (l2_cache m) a d)"
    using nin by (simp_all add: mh_write_def Let_def)
  then show ?thesis
    using nin gc_write_line_holds [OF wf1, of a d] gc_write_line_holds [OF wf2, of a d]
    by (simp add: mh_write_def Let_def)
qed

theorem write_out_of_bounds_still_cached_witness:
  "cache_wf (l1_cache MemoryHierarchy_new) \<and> cache_wf (l2_cache MemoryHierarchy_new)
   \<and> length (vram MemoryHierarchy_new) < unat (0xFFFFFFFE :: u64) + length [1, 2, 3, 4 :: u8]
   \<and> unat (0xFFFFFFFE :: u64) + length [1, 2, 3, 4 :: u8] < 2 ^ 64
   \<and> fst (mh_write MemoryHierarchy_new 0xFFFFFFFE [1, 2, 3, 4]) = False
   \<and> vram (snd (mh_write MemoryHierarchy_new 0xFFFFFFFE [1, 2, 3, 4]))
        = vram MemoryHierarchy_new
   \<and> line_holds (l1_cache (snd (mh_write MemoryHierarchy_new 0xFFFFFFFE [1, 2, 3, 4])))
        0xFFFFFFFE [1, 2]
   \<and> line_holds (l2_cache (snd (mh_write MemoryHierarchy_new 0xFFFFFFFE [1, 2, 3, 4])))
        0xFFFFFFFE [1, 2]"
proof -
  have oob: "length (vram MemoryHierarchy_new)
               < unat (0xFFFFFFFE :: u64) + length [1, 2, 3, 4 :: u8]"
    by (simp add: MemoryHierarchy_new_def)
  have nowrap: "unat (0xFFFFFFFE :: u64) + length [1, 2, 3, 4 :: u8] < 2 ^ 64"
    by simp
  have k1: "take (min (length [1, 2, 3, 4 :: u8])
                   (unat (line_size (l1_cache MemoryHierarchy_new))
                    - unat ((0xFFFFFFFE :: u64) mod line_size (l1_cache MemoryHierarchy_new))))
              [1, 2, 3, 4 :: u8] = [1, 2]"
    by (simp add: MemoryHierarchy_new_def GPUCache_new_def)
  have k2: "take (min (length [1, 2, 3, 4 :: u8])
                   (unat (line_size (l2_cache MemoryHierarchy_new))
                    - unat ((0xFFFFFFFE :: u64) mod line_size (l2_cache MemoryHierarchy_new))))
              [1, 2, 3, 4 :: u8] = [1, 2]"
    by (simp add: MemoryHierarchy_new_def GPUCache_new_def)
  show ?thesis
    using write_out_of_bounds_still_cached [OF mh_new_wf oob nowrap] mh_new_wf oob
    unfolding k1 k2 by simp
qed

section \<open>PerformanceMonitor (performance\_monitor.cpp)\<close>

text \<open>
  The part of the monitor that cache recording and the alert check use: the per-cache hit
  and miss counters, the frame-time history and the thresholds. Timers and bandwidth
  windows read the wall clock and are left out; nothing below depends on them.
  A \<open>double\<close> is idealised as a rational number: the quotient \<open>hits / total\<close> is the exact
  one, where the source has its nearest \<open>double\<close>. The map of thresholds is an association
  list (the source iterates over it in an unspecified order).
\<close>

record PerformanceMonitor =
  pm_cache_hits :: "string \<rightharpoonup> u64"
  pm_cache_misses :: "string \<rightharpoonup> u64"
  frame_times :: "rat list"
  performance_thresholds :: "(string \<times> rat) list"

definition PerformanceMonitor_new :: PerformanceMonitor where
  "PerformanceMonitor_new =
     \<lparr>pm_cache_hits = Map.empty, pm_cache_misses = Map.empty, frame_times = [],
      performance_thresholds = []\<rparr>"

text \<open>\<open>map[key]++\<close> on an \<open>unordered_map\<close>: a missing key starts from 0.\<close>

definition bump_count :: "(string \<rightharpoonup> u64) \<Rightarrow> string \<Rightarrow> (string \<rightharpoonup> u64)" where
  "bump_count m k = m(k \<mapsto> (case m k of None \<Rightarrow> 0 | Some v \<Rightarrow> v) + 1)"

definition record_cache_access :: "PerformanceMonitor \<Rightarrow> string \<Rightarrow> bool \<Rightarrow> PerformanceMonitor" where
  "record_cache_access pm cache hit =
     (if hit then pm\<lparr>pm_cache_hits := bump_count (pm_cache_hits pm) cache\<rparr>
      else pm\<lparr>pm_cache_misses := bump_count (pm_cache_misses pm) cache\<rparr>)"

fun assign_threshold :: "string \<Rightarrow> rat \<Rightarrow> (string \<times> rat) list \<Rightarrow> (string \<times> rat) list" where
  "assign_threshold k v [] = [(k, v)]"
| "assign_threshold k v ((k', v') # r) =
     (if k' = k then (k, v) # r else (k', v') # assign_threshold k v r)"

definition set_performance_threshold :: "PerformanceMonitor \<Rightarrow> string \<Rightarrow> rat \<Rightarrow> PerformanceMonitor" where
  "set_performance_threshold pm metric threshold =
     pm\<lparr>performance_thresholds := assign_threshold metric threshold (performance_thresholds pm)\<rparr>"

text \<open>\<open>std::string::find\<close>: the first position at which the needle occurs, if any.\<close>

fun str_find :: "string \<Rightarrow> string \<Rightarrow> nat option" where
  "str_find [] needle = (if needle = [] then Some 0 else None)"
| "str_find (c # cs) needle =
     (if take (length needle) (c # cs) = needle then Some 0
      else map_option Suc (str_find cs needle))"

text \<open>The hit rate that \<open>generate_report\<close> stores for a cache.\<close>

definition report_cache_hit_rate :: "PerformanceMonitor \<Rightarrow> string \<Rightarrow> rat option" where
  "report_cache_hit_rate pm cache =
     (case pm_cache_hits pm cache of
        None \<Rightarrow> None
      | Some hits \<Rightarrow>
          (let misses = (case pm_cache_misses pm cache of None \<Rightarrow> 0 | Some x \<Rightarrow> x);
               total_accesses = hits + misses
           in if total_accesses > 0
              then Some (of_nat (unat hits) / of_nat (unat total_accesses))
              else None))"

text \<open>
  An alert message is kept by its parts (for a hit-rate alert: the cache name, the rate
  and the threshold, both in percent) instead of the formatted text.
\<close>

datatype alert = FrameTimeAlert rat rat | HitRateAlert string rat rat

definition check_metric :: "PerformanceMonitor \<Rightarrow> string \<Rightarrow> rat \<Rightarrow> alert option" where
  "check_metric pm metric threshold =
     (if metric = ''frame_time_ms'' \<and> frame_times pm \<noteq> []
      then (let current_frame_time = last (frame_times pm)
            in if current_frame_time > threshold
               then Some (FrameTimeAlert current_frame_time threshold) else None)
      else if str_find metric ''hit_rate'' \<noteq> None
      then (let cache_name = (case str_find metric ''_hit_rate'' of
                                None \<Rightarrow> metric | Some pos \<Rightarrow> take pos metric)
            in case (pm_cache_hits pm cache_name, pm_cache_misses pm cache_name) of
                 (Some h, Some ms) \<Rightarrow>
                   (let total = h + ms
                    in if total > 0
                       then (let hit_rate = of_nat (unat h) / of_nat (unat total)
                             in if hit_rate < threshold
                                then Some (HitRateAlert cache_name (hit_rate * 100)
                                             (threshold * 100))
                                else None)
                       else None)
               | _ \<Rightarrow> None)
      else None)"

definition check_performance_alerts :: "PerformanceMonitor \<Rightarrow> alert list" where
  "check_performance_alerts pm =
     List.map_filter (\<lambda>(metric, threshold). check_metric pm metric threshold)
       (performance_thresholds pm)"

text \<open>A fresh monitor after \<open>record_cache_access("c", true / false / true)\<close>.\<close>

definition three_recordings :: PerformanceMonitor where
  "three_recordings =
     record_cache_access
       (record_cache_access (record_cache_access PerformanceMonitor_new ''c'' True) ''c'' False)
       ''c'' True"

text \<open>
  C9. After the three recordings the monitor has counted 2 hits and 1 miss for \<open>"c"\<close>, the
  reported hit rate is \<open>2/3\<close>; with the threshold \<open>0.7\<close> registered for \<open>"c_hit_rate"\<close>
  the alert check yields exactly one alert, the hit-rate alert for \<open>"c"\<close>, and with the
  threshold \<open>0.6\<close> it yields none.
\<close>

theorem three_recordings_hit_rate_and_alerts:
  "pm_cache_hits three_recordings ''c'' = Some 2
   \<and> pm_cache_misses three_recordings ''c'' = Some 1
   \<and> report_cache_hit_rate three_recordings ''c'' = Some (2 / 3)
   \<and> check_performance_alerts
         (set_performance_threshold three_recordings ''c_hit_rate'' (7 / 10))
        = [HitRateAlert ''c'' (200 / 3) 70]
   \<and> check_performance_alerts
         (set_performance_threshold three_recordings ''c_hit_rate'' (6 / 10))
        = []"
  by (simp add: three_recordings_def record_cache_access_def PerformanceMonitor_new_def
        bump_count_def report_cache_hit_rate_def check_performance_alerts_def check_metric_def
        set_performance_threshold_def List.map_filter_def Let_def)

section \<open>TextureCache (texture\_cache.cpp)\<close>

text \<open>
  A cache entry as declared in texture\_cache.h. The field \<open>priority_score\<close> is set to 0
  by the constructor and never read or written again; it is left out. (The fields
  \<open>address\<close>, \<open>data\<close> and \<open>access_count\<close> carry the prefix \<open>entry_\<close> here, the names being
  taken by the cache line and the cache.)
\<close>

record TextureCacheEntry =
  texture_id :: u64
  mip_level :: u32
  entry_address :: u64
  entry_data :: "u8 list"
  last_access_time :: u64
  entry_access_count :: u32
  is_prefetched :: bool

definition TextureCacheEntry_new :: "u64 \<Rightarrow> u32 \<Rightarrow> u64 \<Rightarrow> u64 \<Rightarrow> TextureCacheEntry" where
  "TextureCacheEntry_new tid mip addr sz =
     \<lparr>texture_id = tid, mip_level = mip, entry_address = addr,
      entry_data = replicate (unat sz) 0, last_access_time = 0, entry_access_count = 0,
      is_prefetched = False\<rparr>"

text \<open>
  A recorded access. The two locality fields of the source are never written or read.
\<close>

record AccessPattern =
  ap_texture_id :: u64
  ap_mip_level :: u32
  ap_timestamp :: u64

text \<open>
  The counters of \<open>CacheMetrics\<close>; its derived fields are computed by \<open>get_metrics\<close> only.
\<close>

record CacheMetrics =
  cache_hits :: u64
  cache_misses :: u64
  prefetch_hits :: u64
  prefetch_misses :: u64
  bytes_transferred :: u64

text \<open>
  The cache object, together with the memory hierarchy it works on. The
  \<open>unordered_map\<close> of entries is an association list (a key occurs at most once); the
  prefetch queue is a list with its front first. Left out: the performance monitor (an
  object of its own that the cache only writes to) and the state of the periodic tuning
  (\<open>prefetch_aggressiveness_\<close>, \<open>eviction_threshold_\<close>, \<open>optimization_interval_ms_\<close>,
  \<open>last_optimization_time_\<close>): \<open>tune_performance_parameters\<close> reads the metrics and the
  wall clock and writes only these and the monitor, and no other function reads them.
\<close>

record TextureCache =
  memory :: MemoryHierarchy
  cache_entries :: "(u64 \<times> TextureCacheEntry) list"
  prefetch_queue :: "u64 list"
  max_cache_size_bytes :: u64
  current_cache_size_bytes :: u64
  prefetch_distance :: u32
  smart_prefetching_enabled :: bool
  adaptive_caching_enabled :: bool
  recent_accesses :: "AccessPattern list"
  max_pattern_history :: u64
  metrics :: CacheMetrics

definition TextureCache_new :: "u64 \<Rightarrow> MemoryHierarchy \<Rightarrow> TextureCache" where
  "TextureCache_new cache_size_mb mem =
     \<lparr>memory = mem, cache_entries = [], prefetch_queue = [],
      max_cache_size_bytes = cache_size_mb * 1024 * 1024, current_cache_size_bytes = 0,
      prefetch_distance = 100, smart_prefetching_enabled = True,
      adaptive_caching_enabled = True, recent_accesses = [], max_pattern_history = 1000,
      metrics = \<lparr>cache_hits = 0, cache_misses = 0, prefetch_hits = 0, prefetch_misses = 0,
                 bytes_transferred = 0\<rparr>\<rparr>"

text \<open>The key \<open>(texture_id << 8) | mip_level\<close>, in 64 bits.\<close>

definition cache_key :: "u64 \<Rightarrow> u32 \<Rightarrow> u64" where
  "cache_key tid mip = push_bit 8 tid OR ucast mip"

text \<open>\<open>map[key] = value\<close>: the value of a present key is replaced, an absent key is added.\<close>

fun umap_assign :: "'k \<Rightarrow> 'v \<Rightarrow> ('k \<times> 'v) list \<Rightarrow> ('k \<times> 'v) list" where
  "umap_assign k v [] = [(k, v)]"
| "umap_assign k v ((k', v') # r) =
     (if k' = k then (k, v) # r else (k', v') # umap_assign k v r)"

text \<open>
  The comparison of two priority scores is floating-point arithmetic on the wall clock;
  it enters the model as a parameter \<open>lt\<close>, an arbitrary relation on entries, and
  \<open>std::min_element\<close> runs with it as in the source. Erasing the iterator removes the
  element at the index found.
\<close>

definition evict_least_valuable_entry ::
    "(TextureCacheEntry \<Rightarrow> TextureCacheEntry \<Rightarrow> bool) \<Rightarrow> TextureCache \<Rightarrow> TextureCache option" where
  "evict_least_valuable_entry lt s =
     (if cache_entries s = [] then Some s
      else
        (let i = min_element (\<lambda>a b. lt (snd a) (snd b)) (cache_entries s);
             e = snd (cache_entries s ! i)
         in case mh_deallocate (memory s) (entry_address e) of
              None \<Rightarrow> None
            | Some m' \<Rightarrow>
                Some (s\<lparr>current_cache_size_bytes :=
                           current_cache_size_bytes s - word_of_nat (length (entry_data e)),
                        memory := m',
                        cache_entries := take i (cache_entries s)
                                         @ drop (Suc i) (cache_entries s)\<rparr>)))"

text \<open>
  The loop at the head of \<open>allocate_entry\<close>:
  \<^verbatim>\<open>while (current + size > max && !cache_entries_.empty()) evict_least_valuable_entry();\<close>
  Each round that returns removes one entry.
\<close>

function evict_until_fits ::
    "(TextureCacheEntry \<Rightarrow> TextureCacheEntry \<Rightarrow> bool) \<Rightarrow> TextureCache \<Rightarrow> u64 \<Rightarrow> TextureCache option" where
  "evict_until_fits lt s sz =
     (if current_cache_size_bytes s + sz > max_cache_size_bytes s \<and> cache_entries s \<noteq> []
      then (case evict_least_valuable_entry lt s of
              None \<Rightarrow> None
            | Some s' \<Rightarrow> evict_until_fits lt s' sz)
      else Some s)"
  by pat_completeness auto
termination
proof (relation "measure (\<lambda>(lt, s, sz). length (cache_entries s))")
  show "wf (measure (\<lambda>(lt, s, sz). length (cache_entries s)))" by simp
next
  fix lt :: "TextureCacheEntry \<Rightarrow> TextureCacheEntry \<Rightarrow> bool"
  fix s s' :: TextureCache and sz :: u64
  assume c: "max_cache_size_bytes s < current_cache_size_bytes s + sz \<and> cache_entries s \<noteq> []"
     and e: "evict_least_valuable_entry lt s = Some s'"
  let ?i = "min_element (\<lambda>a b. lt (snd a) (snd b)) (cache_entries s)"
  have i: "?i < length (cache_entries s)"
    using c by (intro min_element_bound) simp
  have "cache_entries s' = take ?i (cache_entries s) @ drop (Suc ?i) (cache_entries s)"
    using c e by (auto simp: evict_least_valuable_entry_def Let_def split: option.splits)
  then have "length (cache_entries s') < length (cache_entries s)"
    using i by simp
  then show "((lt, s', sz), (lt, s, sz)) \<in> measure (\<lambda>(lt, s, sz). length (cache_entries s))"
    by simp
qed

declare evict_until_fits.simps [simp del]

text \<open>
  \<open>allocate_entry\<close> returns a pointer to the new entry; the model returns the key, the
  entry as constructed, and the state.
\<close>

definition allocate_entry ::
    "(TextureCacheEntry \<Rightarrow> TextureCacheEntry \<Rightarrow> bool) \<Rightarrow> TextureCache \<Rightarrow> u64 \<Rightarrow> u32 \<Rightarrow> u64 \<Rightarrow> u64
       \<Rightarrow> (u64 \<times> TextureCacheEntry \<times> TextureCache) option" where
  "allocate_entry lt s tid mip addr sz =
     (case evict_until_fits lt s sz of
        None \<Rightarrow> None
      | Some s1 \<Rightarrow>
          (let key = cache_key tid mip;
               entry = TextureCacheEntry_new tid mip addr sz
           in Some (key, entry,
                    s1\<lparr>cache_entries := umap_assign key entry (cache_entries s1),
                       current_cache_size_bytes := current_cache_size_bytes s1 + sz\<rparr>)))"

text \<open>
  \<open>prefetch_texture\<close>: the key is pushed and the front of the queue is served at once. The
  result of the hierarchy read is ignored by the source; the bytes it delivered stay in
  the entry.
\<close>

definition prefetch_texture ::
    "(TextureCacheEntry \<Rightarrow> TextureCacheEntry \<Rightarrow> bool) \<Rightarrow> TextureCache \<Rightarrow> u64 \<Rightarrow> u32 \<Rightarrow> TextureCache option" where
  "prefetch_texture lt s tid mip =
     (let key = cache_key tid mip
      in if map_of (cache_entries s) key \<noteq> None then Some s
         else
           (case prefetch_queue s @ [key] of
              [] \<Rightarrow> Some (s\<lparr>prefetch_queue := []\<rparr>)
            | prefetch_key # rest \<Rightarrow>
                (let prefetch_texture_id = drop_bit 8 prefetch_key;
                     prefetch_mip = (ucast (prefetch_key AND 0xFF) :: u32);
                     texture_size = 1024 * 1024;
                     (texture_address, m1) = mh_allocate (memory s) texture_size;
                     s1 = s\<lparr>prefetch_queue := rest, memory := m1\<rparr>
                 in if texture_address \<noteq> 0
                    then (case allocate_entry lt s1 prefetch_texture_id prefetch_mip
                                 texture_address texture_size of
                            None \<Rightarrow> None
                          | Some (k, entry, s2) \<Rightarrow>
                              (let (ok, d, m2) = mh_read (memory s2) texture_address
                                                    (entry_data entry);
                                   entry' = entry\<lparr>entry_data := d, is_prefetched := True\<rparr>
                               in Some (s2\<lparr>memory := m2,
                                          cache_entries :=
                                            umap_assign k entry' (cache_entries s2),
                                          metrics := (metrics s2)
                                            \<lparr>bytes_transferred :=
                                               bytes_transferred (metrics s2)
                                               + texture_size\<rparr>\<rparr>)))
                    else Some s1)))"

text \<open>
  \<open>predict_future_accesses\<close>, in two parts: the decision which prefetch to issue, if any,
  from the recorded accesses, and the call of \<open>prefetch_texture\<close>.
\<close>

definition predicted_prefetch :: "AccessPattern list \<Rightarrow> (u64 \<times> u32) option" where
  "predicted_prefetch h =
     (if length h < 3 then None
      else
        (let last_access = last h;
             prev_access = h ! (length h - 2)
         in if ap_texture_id prev_access = ap_texture_id last_access
            then (let next_mip = ap_mip_level last_access + 1
                  in if next_mip < 16 then Some (ap_texture_id last_access, next_mip)
                     else None)
            else if ap_texture_id last_access = ap_texture_id prev_access + 1
            then Some (ap_texture_id last_access + 1, ap_mip_level last_access)
            else None))"

definition predict_future_accesses ::
    "(TextureCacheEntry \<Rightarrow> TextureCacheEntry \<Rightarrow> bool) \<Rightarrow> TextureCache \<Rightarrow> TextureCache option" where
  "predict_future_accesses lt s =
     (case predicted_prefetch (recent_accesses s) of
        None \<Rightarrow> Some s
      | Some (tid, mip) \<Rightarrow> prefetch_texture lt s tid mip)"

text \<open>
  The head of \<open>read_texture\<close>: the oldest access is dropped once the history is full, and
  the current access is appended.
\<close>

definition record_access :: "TextureCache \<Rightarrow> AccessPattern \<Rightarrow> AccessPattern list" where
  "record_access s p =
     (if unat (max_pattern_history s) \<le> length (recent_accesses s)
      then tl (recent_accesses s) else recent_accesses s) @ [p]"

text \<open>
  The miss path of \<open>read_texture\<close> (from the comment ``Cache miss - load from memory''
  on). The timestamp \<open>now\<close> is an argument. A \<open>None\<close> result is a call that does not return
  (see \<open>invalidate_range\<close>); a call that returns yields its boolean result, the caller's
  buffer and the new state.
\<close>

definition read_miss ::
    "(TextureCacheEntry \<Rightarrow> TextureCacheEntry \<Rightarrow> bool) \<Rightarrow> TextureCache \<Rightarrow> u64 \<Rightarrow> u64 \<Rightarrow> u32
       \<Rightarrow> u64 \<Rightarrow> u8 list \<Rightarrow> (bool \<times> u8 list \<times> TextureCache) option" where
  "read_miss lt s now tid mip offset buf =
     (let s1 = s\<lparr>metrics := (metrics s)\<lparr>cache_misses := cache_misses (metrics s) + 1\<rparr>\<rparr>;
          texture_size = max (word_of_nat (length buf)) (1024 * 1024);
          (texture_address, m1) = mh_allocate (memory s1) texture_size
      in if texture_address = 0 then Some (False, buf, s1\<lparr>memory := m1\<rparr>)
         else
           (let (ok, texture_data, m2) =
                   mh_read m1 texture_address (replicate (unat texture_size) 0)
            in if \<not> ok
               then (case mh_deallocate m2 texture_address of
                       None \<Rightarrow> None
                     | Some m3 \<Rightarrow> Some (False, buf, s1\<lparr>memory := m3\<rparr>))
               else
                 (case allocate_entry lt (s1\<lparr>memory := m2\<rparr>) tid mip texture_address
                         texture_size of
                    None \<Rightarrow> None
                  | Some (key, entry, s2) \<Rightarrow>
                      (let entry' = entry\<lparr>entry_data := texture_data,
                                           last_access_time := now,
                                           entry_access_count := 1,
                                           is_prefetched := False\<rparr>;
                           buf' = (if offset + word_of_nat (length buf)
                                        \<le> word_of_nat (length (entry_data entry'))
                                   then take (length buf)
                                          (drop (unat offset) (entry_data entry'))
                                   else buf)
                       in Some (True, buf',
                                s2\<lparr>cache_entries :=
                                      umap_assign key entry' (cache_entries s2),
                                   metrics := (metrics s2)
                                     \<lparr>bytes_transferred :=
                                        bytes_transferred (metrics s2) + texture_size\<rparr>\<rparr>)))))"

text \<open>
  \<open>read_texture\<close>. A resident entry is stamped and counted before the slice test; a slice
  beyond the entry falls through to the miss path. The pattern predictor is called on
  the hit path only.
\<close>

definition read_texture ::
    "(TextureCacheEntry \<Rightarrow> TextureCacheEntry \<Rightarrow> bool) \<Rightarrow> TextureCache \<Rightarrow> u64 \<Rightarrow> u64 \<Rightarrow> u32
       \<Rightarrow> u64 \<Rightarrow> u8 list \<Rightarrow> (bool \<times> u8 list \<times> TextureCache) option" where
  "read_texture lt s now tid mip offset buf =
     (let pattern = \<lparr>ap_texture_id = tid, ap_mip_level = mip, ap_timestamp = now\<rparr>;
          s1 = s\<lparr>recent_accesses := record_access s pattern\<rparr>;
          key = cache_key tid mip
      in case map_of (cache_entries s1) key of
           None \<Rightarrow> read_miss lt s1 now tid mip offset buf
         | Some e \<Rightarrow>
             (let e' = e\<lparr>last_access_time := now,
                          entry_access_count := entry_access_count e + 1\<rparr>;
                  s2 = s1\<lparr>cache_entries := umap_assign key e' (cache_entries s1)\<rparr>
              in if offset + word_of_nat (length buf) \<le> word_of_nat (length (entry_data e'))
                 then
                   (let m = metrics s2;
                        s3 = s2\<lparr>metrics := m
                               \<lparr>cache_hits := cache_hits m + 1,
                                prefetch_hits := (if is_prefetched e' then prefetch_hits m + 1
                                                  else prefetch_hits m)\<rparr>\<rparr>
                    in case (if smart_prefetching_enabled s3
                             then predict_future_accesses lt s3 else Some s3) of
                         None \<Rightarrow> None
                       | Some s4 \<Rightarrow>
                           Some (True, take (length buf) (drop (unat offset) (entry_data e')),
                                 s4))
                 else read_miss lt s2 now tid mip offset buf))"

text \<open>
  \<open>invalidate_texture\<close> walks the map and erases every entry of the texture; the loop
  yields the memory, the byte count and the entries kept.
\<close>

fun invalidate_loop ::
    "MemoryHierarchy \<Rightarrow> u64 \<Rightarrow> (u64 \<times> TextureCacheEntry) list \<Rightarrow> u64
       \<Rightarrow> (MemoryHierarchy \<times> u64 \<times> (u64 \<times> TextureCacheEntry) list) option" where
  "invalidate_loop m cur [] tid = Some (m, cur, [])"
| "invalidate_loop m cur ((k, e) # r) tid =
     (if texture_id e = tid
      then (case mh_deallocate m (entry_address e) of
              None \<Rightarrow> None
            | Some m' \<Rightarrow>
                invalidate_loop m' (cur - word_of_nat (length (entry_data e))) r tid)
      else map_option (\<lambda>(m', cur', kept). (m', cur', (k, e) # kept))
             (invalidate_loop m cur r tid))"

definition invalidate_texture :: "TextureCache \<Rightarrow> u64 \<Rightarrow> TextureCache option" where
  "invalidate_texture s tid =
     map_option
       (\<lambda>(m', cur', kept). s\<lparr>memory := m', current_cache_size_bytes := cur',
                               cache_entries := kept\<rparr>)
       (invalidate_loop (memory s) (current_cache_size_bytes s) (cache_entries s) tid)"

text \<open>\<open>flush\<close> frees every entry's region, then clears the map and the queue.\<close>

fun flush_loop :: "MemoryHierarchy \<Rightarrow> (u64 \<times> TextureCacheEntry) list \<Rightarrow> MemoryHierarchy option" where
  "flush_loop m [] = Some m"
| "flush_loop m ((k, e) # r) =
     (case mh_deallocate m (entry_address e) of
        None \<Rightarrow> None
      | Some m' \<Rightarrow> flush_loop m' r)"

definition tc_flush :: "TextureCache \<Rightarrow> TextureCache option" where
  "tc_flush s =
     map_option
       (\<lambda>m'. s\<lparr>memory := m', cache_entries := [], current_cache_size_bytes := 0,
                 prefetch_queue := []\<rparr>)
       (flush_loop (memory s) (cache_entries s))"

text \<open>Sequences of public operations; a read carries its timestamp first.\<close>

datatype tc_op = ReadTexture u64 u64 u32 u64 "u8 list" | PrefetchTexture u64 u32
  | InvalidateTexture u64 | FlushCache

fun tc_step :: "(TextureCacheEntry \<Rightarrow> TextureCacheEntry \<Rightarrow> bool) \<Rightarrow> TextureCache \<Rightarrow> tc_op \<Rightarrow> TextureCache option" where
  "tc_step lt s (ReadTexture now tid mip offset buf) =
     map_option (\<lambda>(ok, buf', s'). s') (read_texture lt s now tid mip offset buf)"
| "tc_step lt s (PrefetchTexture tid mip) = prefetch_texture lt s tid mip"
| "tc_step lt s (InvalidateTexture tid) = invalidate_texture s tid"
| "tc_step lt s FlushCache = tc_flush s"

fun tc_run :: "(TextureCacheEntry \<Rightarrow> TextureCacheEntry \<Rightarrow> bool) \<Rightarrow> TextureCache \<Rightarrow> tc_op list \<Rightarrow> TextureCache option" where
  "tc_run lt s [] = Some s"
| "tc_run lt s (op # ops) =
     (case tc_step lt s op of None \<Rightarrow> None | Some s' \<Rightarrow> tc_run lt s' ops)"

text \<open>\<open>find_entry\<close> of the source, and what the claims observe of a state.\<close>

definition find_entry :: "TextureCache \<Rightarrow> u64 \<Rightarrow> u32 \<Rightarrow> TextureCacheEntry option" where
  "find_entry s tid mip = map_of (cache_entries s) (cache_key tid mip)"

definition resident_keys :: "TextureCache \<Rightarrow> u64 list" where
  "resident_keys s = map fst (cache_entries s)"

definition entries_bytes :: "TextureCache \<Rightarrow> nat" where
  "entries_bytes s = sum_list (map (\<lambda>(k, e). length (entry_data e)) (cache_entries s))"

definition has_entry :: "u64 \<Rightarrow> u32 \<Rightarrow> TextureCache \<Rightarrow> bool" where
  "has_entry tid mip s = (find_entry s tid mip \<noteq> None)"

definition has_prefetched_entry :: "u64 \<Rightarrow> u32 \<Rightarrow> TextureCache \<Rightarrow> bool" where
  "has_prefetched_entry tid mip s =
     (case find_entry s tid mip of None \<Rightarrow> False | Some e \<Rightarrow> is_prefetched e)"

text \<open>A concrete comparison for the scenarios below: the older access is the lesser.\<close>

definition by_last_access :: "TextureCacheEntry \<Rightarrow> TextureCacheEntry \<Rightarrow> bool" where
  "by_last_access a b = (last_access_time a < last_access_time b)"

section \<open>Specification predicates for the texture cache\<close>

text \<open>The bytes held by a list of entries.\<close>

definition entry_bytes :: "(u64 \<times> TextureCacheEntry) list \<Rightarrow> nat" where
  "entry_bytes xs = sum_list (map (\<lambda>(k, e). length (entry_data e)) xs)"

text \<open>
  The size invariant of the claims: the payload sizes add up to
  \<open>current_cache_size_bytes\<close>, which does not exceed \<open>max_cache_size_bytes\<close>.
\<close>

definition size_inv :: "TextureCache \<Rightarrow> bool" where
  "size_inv s =
     (entries_bytes s = unat (current_cache_size_bytes s) \<and>
      current_cache_size_bytes s \<le> max_cache_size_bytes s)"

text \<open>
  The states the amended invariant is about: the hierarchy satisfies its invariant, the
  size invariant holds, the prefetch queue is empty between calls, and the capacity is
  at least one entry (1 MiB) and below \<open>2^63\<close> bytes, so that no 64-bit sum of sizes wraps.
\<close>

definition tc_inv :: "TextureCache \<Rightarrow> bool" where
  "tc_inv s =
     (mem_inv (memory s) \<and> size_inv s \<and> prefetch_queue s = [] \<and>
      2 ^ 20 \<le> unat (max_cache_size_bytes s) \<and> unat (max_cache_size_bytes s) < 2 ^ 63)"

text \<open>
  A read is admissible in a state when it cannot take the miss path for a resident key
  (its slice lies inside the resident entry) and, for a key that is not resident, does
  not ask for more bytes than the cache may hold.
\<close>

definition read_admissible :: "TextureCache \<Rightarrow> u64 \<Rightarrow> u32 \<Rightarrow> u64 \<Rightarrow> u8 list \<Rightarrow> bool" where
  "read_admissible s tid mip offset buf =
     (case find_entry s tid mip of
        Some e \<Rightarrow> unat offset + length buf \<le> length (entry_data e)
      | None \<Rightarrow> length buf \<le> unat (max_cache_size_bytes s))"

fun op_admissible :: "TextureCache \<Rightarrow> tc_op \<Rightarrow> bool" where
  "op_admissible s (ReadTexture now tid mip offset buf) = read_admissible s tid mip offset buf"
| "op_admissible s (PrefetchTexture tid mip) = True"
| "op_admissible s (InvalidateTexture tid) = True"
| "op_admissible s FlushCache = True"

fun ops_admissible ::
    "(TextureCacheEntry \<Rightarrow> TextureCacheEntry \<Rightarrow> bool) \<Rightarrow> TextureCache \<Rightarrow> tc_op list \<Rightarrow> bool" where
  "ops_admissible lt s [] = True"
| "ops_admissible lt s (op # ops) =
     (op_admissible s op \<and>
      (case tc_step lt s op of None \<Rightarrow> True | Some s' \<Rightarrow> ops_admissible lt s' ops))"

text \<open>
  The hit path issues no prefetch: smart prefetching is off, or the predictor selects
  nothing from the history extended by this access, or it selects a resident key.
\<close>

definition no_prefetch_issued :: "TextureCache \<Rightarrow> u64 \<Rightarrow> u64 \<Rightarrow> u32 \<Rightarrow> bool" where
  "no_prefetch_issued s now tid mip =
     (\<not> smart_prefetching_enabled s \<or>
      (case predicted_prefetch
              (record_access s \<lparr>ap_texture_id = tid, ap_mip_level = mip, ap_timestamp = now\<rparr>) of
         None \<Rightarrow> True
       | Some (t, m) \<Rightarrow> has_entry t m s))"

section \<open>Scenarios on a fresh texture cache\<close>


text \<open>A read of texture 1, level 0, then a read of texture 0, level 256.\<close>

definition key_collision_reads :: "TextureCache option" where
  "key_collision_reads =
     tc_run by_last_access (TextureCache_new 256 MemoryHierarchy_new)
       [ReadTexture 1 1 0 0 (replicate 64 0), ReadTexture 2 0 256 0 (replicate 64 0)]"

text \<open>The same 64 bytes of texture 42, level 0, read twice and read three times.\<close>

definition two_repeated_reads :: "TextureCache option" where
  "two_repeated_reads =
     tc_run by_last_access (TextureCache_new 256 MemoryHierarchy_new)
       [ReadTexture 1 42 0 0 (replicate 64 0), ReadTexture 2 42 0 0 (replicate 64 0)]"

definition three_repeated_reads :: "TextureCache option" where
  "three_repeated_reads =
     tc_run by_last_access (TextureCache_new 256 MemoryHierarchy_new)
       [ReadTexture 1 42 0 0 (replicate 64 0), ReadTexture 2 42 0 0 (replicate 64 0),
        ReadTexture 3 42 0 0 (replicate 64 0)]"

text \<open>A 64 MiB cache asked for 65 MiB in one read.\<close>

definition oversize_read :: "TextureCache option" where
  "oversize_read =
     tc_run by_last_access (TextureCache_new 64 MemoryHierarchy_new)
       [ReadTexture 1 7 0 0 (replicate 68157440 0)]"

text \<open>
  A 64 MiB cache: 1024 bytes of texture 1 are read, then one byte at offset 1 MiB of the
  same texture, just beyond the resident entry.
\<close>

definition reread_beyond_entry :: "TextureCache option" where
  "reread_beyond_entry =
     tc_run by_last_access (TextureCache_new 64 MemoryHierarchy_new)
       [ReadTexture 1 1 0 0 (replicate 1024 0), ReadTexture 2 1 0 1048576 [0]]"

text \<open>The state after one read of texture 42, level 0, and the entry it leaves.\<close>

definition after_first_read :: TextureCache where
  "after_first_read =
     (case tc_run by_last_access (TextureCache_new 256 MemoryHierarchy_new)
             [ReadTexture 1 42 0 0 (replicate 64 0)] of
        None \<Rightarrow> TextureCache_new 256 MemoryHierarchy_new
      | Some s \<Rightarrow> s)"

definition first_entry :: TextureCacheEntry where
  "first_entry =
     \<lparr>texture_id = 42, mip_level = 0, entry_address = 0x10000000,
      entry_data = replicate 1048576 0, last_access_time = 1, entry_access_count = 1,
      is_prefetched = False\<rparr>"

text \<open>A miss, a hit, an explicit prefetch and a second miss.\<close>

definition mixed_ops :: "tc_op list" where
  "mixed_ops =
     [ReadTexture 1 42 0 0 (replicate 64 0), ReadTexture 2 42 0 0 (replicate 64 0),
      PrefetchTexture 7 3, ReadTexture 3 42 1 512 (replicate 1024 0)]"

section \<open>Entries, eviction and insertion\<close>

lemma entries_bytes_alt: "entries_bytes s = entry_bytes (cache_entries s)"
  by (simp add: entries_bytes_def entry_bytes_def)

lemma entry_bytes_simps [simp]:
  "entry_bytes [] = 0"
  "entry_bytes ((k, e) # xs) = length (entry_data e) + entry_bytes xs"
  "entry_bytes (xs @ ys) = entry_bytes xs + entry_bytes ys"
  by (simp_all add: entry_bytes_def)

lemma map_of_umap_assign:
  "map_of (umap_assign k v xs) k' = (if k' = k then Some v else map_of xs k')"
  by (induction xs) auto

lemma umap_assign_absent:
  "map_of xs k = None \<Longrightarrow> umap_assign k v xs = xs @ [(k, v)]"
  by (induction xs) (auto split: if_splits)

lemma umap_assign_keys:
  "map_of xs k = Some v0 \<Longrightarrow> map fst (umap_assign k v xs) = map fst xs"
  by (induction xs) (auto split: if_splits)

lemma umap_assign_bytes:
  "map_of xs k = Some v0 \<Longrightarrow> length (entry_data v) = length (entry_data v0)
     \<Longrightarrow> entry_bytes (umap_assign k v xs) = entry_bytes xs"
  by (induction xs) (auto split: if_splits)

lemma umap_assign_payloads:
  "map_of xs k = Some v0 \<Longrightarrow> entry_data v = entry_data v0
     \<Longrightarrow> map (\<lambda>(k, x). (k, entry_data x)) (umap_assign k v xs)
         = map (\<lambda>(k, x). (k, entry_data x)) xs"
  by (induction xs) (auto split: if_splits)

lemma entry_bytes_nth_le:
  "i < length xs \<Longrightarrow> length (entry_data (snd (xs ! i))) \<le> entry_bytes xs"
proof (induction xs arbitrary: i)
  case Nil
  then show ?case by simp
next
  case (Cons x xs)
  obtain k e where x: "x = (k, e)" by (cases x)
  show ?case
  proof (cases i)
    case 0
    then show ?thesis using x by simp
  next
    case (Suc j)
    then have "length (entry_data (snd (xs ! j))) \<le> entry_bytes xs"
      using Cons by simp
    then show ?thesis using x Suc by simp
  qed
qed

lemma entry_bytes_erase:
  "i < length xs \<Longrightarrow>
     entry_bytes (take i xs @ drop (Suc i) xs) + length (entry_data (snd (xs ! i)))
       = entry_bytes xs"
proof (induction xs arbitrary: i)
  case Nil
  then show ?case by simp
next
  case (Cons x xs)
  obtain k e where x: "x = (k, e)" by (cases x)
  show ?case
  proof (cases i)
    case 0
    then show ?thesis using x by simp
  next
    case (Suc j)
    then show ?thesis using Cons.IH [of j] Cons.prems x by simp
  qed
qed

lemma map_of_erase_None:
  "map_of xs k = None \<Longrightarrow> map_of (take i xs @ drop (Suc i) xs) k = None"
proof -
  assume "map_of xs k = None"
  then have "k \<notin> fst ` set xs" by (simp add: map_of_eq_None_iff)
  moreover have "set (take i xs @ drop (Suc i) xs) \<subseteq> set xs"
    using set_take_subset [of i xs] set_drop_subset [of "Suc i" xs] by auto
  ultimately have "k \<notin> fst ` set (take i xs @ drop (Suc i) xs)" by blast
  then show ?thesis unfolding map_of_eq_None_iff .
qed

lemma map_of_entry_bytes_le:
  "map_of xs k = Some e \<Longrightarrow> length (entry_data e) \<le> entry_bytes xs"
  by (induction xs) (auto split: if_splits)

lemma evict_step:
  assumes mi: "mem_inv (memory s)" and si: "size_inv s" and ne: "cache_entries s \<noteq> []"
  shows "\<exists>s'. evict_least_valuable_entry lt s = Some s' \<and> mem_inv (memory s') \<and> size_inv s'
           \<and> vram (memory s') = vram (memory s)
           \<and> max_cache_size_bytes s' = max_cache_size_bytes s
           \<and> prefetch_queue s' = prefetch_queue s
           \<and> (\<forall>k. map_of (cache_entries s) k = None \<longrightarrow> map_of (cache_entries s') k = None)"
proof -
  let ?xs = "cache_entries s"
  let ?i = "min_element (\<lambda>a b. lt (snd a) (snd b)) ?xs"
  let ?e = "snd (?xs ! ?i)"
  let ?n = "length (entry_data ?e)"
  have i: "?i < length ?xs" using ne by (intro min_element_bound)
  obtain m' where d: "mh_deallocate (memory s) (entry_address ?e) = Some m'"
    "mem_inv m'" "vram m' = vram (memory s)"
    using mh_deallocate_inv [OF mi] by blast
  have sum: "entry_bytes ?xs = unat (current_cache_size_bytes s)"
    and cm: "current_cache_size_bytes s \<le> max_cache_size_bytes s"
    using si by (simp_all add: size_inv_def entries_bytes_alt)
  have nle: "?n \<le> unat (current_cache_size_bytes s)"
    using entry_bytes_nth_le [OF i] sum by simp
  have "unat (current_cache_size_bytes s) < 2 ^ 64"
    using unsigned_less [of "current_cache_size_bytes s", where 'a = nat] by simp
  then have n64: "?n < 2 ^ 64" using nle by linarith
  have un: "unat (word_of_nat ?n :: u64) = ?n" using n64 by (simp add: unat_of_nat)
  have wle: "(word_of_nat ?n :: u64) \<le> current_cache_size_bytes s"
    using nle un by (simp add: word_le_nat_alt)
  have sub: "unat (current_cache_size_bytes s - word_of_nat ?n) = unat (current_cache_size_bytes s) - ?n"
    using wle un by (simp add: unat_sub)
  let ?s' = "s\<lparr>current_cache_size_bytes := current_cache_size_bytes s - word_of_nat ?n,
               memory := m', cache_entries := take ?i ?xs @ drop (Suc ?i) ?xs\<rparr>"
  have r: "evict_least_valuable_entry lt s = Some ?s'"
    using ne d(1) by (simp add: evict_least_valuable_entry_def Let_def)
  have "entry_bytes (take ?i ?xs @ drop (Suc ?i) ?xs) = unat (current_cache_size_bytes s) - ?n"
    using entry_bytes_erase [OF i] sum by simp
  moreover have "current_cache_size_bytes s - word_of_nat ?n \<le> max_cache_size_bytes s"
    using cm sub by (simp add: word_le_nat_alt)
  ultimately have "size_inv ?s'"
    using sub by (simp add: size_inv_def entries_bytes_alt)
  moreover have "map_of ?xs k = None \<Longrightarrow> map_of (take ?i ?xs @ drop (Suc ?i) ?xs) k = None"
    for k by (rule map_of_erase_None)
  ultimately show ?thesis
    using r d(2,3) by (intro exI [of _ ?s']) (simp del: map_of_append)
qed

lemma evict_until_fits_inv:
  assumes "mem_inv (memory s)" "size_inv s" "unat sz \<le> unat (max_cache_size_bytes s)"
      "unat (max_cache_size_bytes s) < 2 ^ 63"
  shows "\<exists>s'. evict_until_fits lt s sz = Some s' \<and> mem_inv (memory s') \<and> size_inv s'
           \<and> vram (memory s') = vram (memory s)
           \<and> max_cache_size_bytes s' = max_cache_size_bytes s
           \<and> prefetch_queue s' = prefetch_queue s
           \<and> unat (current_cache_size_bytes s') + unat sz \<le> unat (max_cache_size_bytes s')
           \<and> (\<forall>k. map_of (cache_entries s) k = None \<longrightarrow> map_of (cache_entries s') k = None)"
  using assms
proof (induction lt s sz rule: evict_until_fits.induct)
  case (1 lt s sz)
  have cm: "unat (current_cache_size_bytes s) \<le> unat (max_cache_size_bytes s)"
    and sum: "entry_bytes (cache_entries s) = unat (current_cache_size_bytes s)"
    using "1.prems"(2) by (simp_all add: size_inv_def word_le_nat_alt entries_bytes_alt)
  have add: "unat (current_cache_size_bytes s + sz) = unat (current_cache_size_bytes s) + unat sz"
    using cm "1.prems"(3,4) by (simp add: unat_word_ariths)
  show ?case
  proof (cases "current_cache_size_bytes s + sz > max_cache_size_bytes s \<and> cache_entries s \<noteq> []")
    case True
    obtain s' where e: "evict_least_valuable_entry lt s = Some s'" "mem_inv (memory s')"
      "size_inv s'" "vram (memory s') = vram (memory s)"
      "max_cache_size_bytes s' = max_cache_size_bytes s"
      "prefetch_queue s' = prefetch_queue s"
      "\<forall>k. map_of (cache_entries s) k = None \<longrightarrow> map_of (cache_entries s') k = None"
      using evict_step [OF "1.prems"(1,2), of lt] True by blast
    have "\<exists>s''. evict_until_fits lt s' sz = Some s'' \<and> mem_inv (memory s'') \<and> size_inv s''
           \<and> vram (memory s'') = vram (memory s')
           \<and> max_cache_size_bytes s'' = max_cache_size_bytes s'
           \<and> prefetch_queue s'' = prefetch_queue s'
           \<and> unat (current_cache_size_bytes s'') + unat sz \<le> unat (max_cache_size_bytes s'')
           \<and> (\<forall>k. map_of (cache_entries s') k = None \<longrightarrow> map_of (cache_entries s'') k = None)"
      using "1.IH" [OF True e(1) e(2) e(3)] "1.prems"(3,4) e(5) by simp
    then obtain s'' where r: "evict_until_fits lt s' sz = Some s''" "mem_inv (memory s'')"
      "size_inv s''" "vram (memory s'') = vram (memory s')"
      "max_cache_size_bytes s'' = max_cache_size_bytes s'"
      "prefetch_queue s'' = prefetch_queue s'"
      "unat (current_cache_size_bytes s'') + unat sz \<le> unat (max_cache_size_bytes s'')"
      "\<forall>k. map_of (cache_entries s') k = None \<longrightarrow> map_of (cache_entries s'') k = None"
      by blast
    have "evict_until_fits lt s sz = Some s''"
      using True e(1) r(1) by (subst evict_until_fits.simps) simp
    then show ?thesis using r e by (intro exI [of _ s'']) simp
  next
    case False
    have fits: "unat (current_cache_size_bytes s) + unat sz \<le> unat (max_cache_size_bytes s)"
    proof (cases "cache_entries s = []")
      case True
      then have "unat (current_cache_size_bytes s) = 0" using sum by simp
      then show ?thesis using "1.prems"(3) by simp
    next
      case ne: False
      then have "\<not> max_cache_size_bytes s < current_cache_size_bytes s + sz" using False by simp
      then show ?thesis using add by (simp add: word_less_nat_alt)
    qed
    have "evict_until_fits lt s sz = Some s"
      using False by (subst evict_until_fits.simps) auto
    then show ?thesis using "1.prems" fits by (intro exI [of _ s]) simp
  qed
qed

lemma cache_key_decode: "cache_key (drop_bit 8 k) (ucast (k AND 0xFF)) = k"
proof -
  have m: "(0xFF :: u64) = mask 8" by (simp add: mask_eq_exp_minus_1)
  have "push_bit 8 (drop_bit 8 k) OR (ucast (ucast (k AND mask 8) :: u32) :: u64) = k"
  proof (rule bit_eqI)
    fix n
    show "bit (push_bit 8 (drop_bit 8 k) OR (ucast (ucast (k AND mask 8) :: u32) :: u64)) n
            \<longleftrightarrow> bit k n"
    proof (cases "n < 8")
      case True
      then show ?thesis by (auto simp: bit_simps)
    next
      case False
      then have "8 + (n - 8) = n" by simp
      then show ?thesis using False bit_imp_le_length [of k n]
        by (auto simp: bit_simps)
    qed
  qed
  then show ?thesis unfolding cache_key_def m .
qed

lemma size_inv_upd [simp]:
  "size_inv (s\<lparr>metrics := x\<rparr>) = size_inv s"
  "size_inv (s\<lparr>recent_accesses := y\<rparr>) = size_inv s"
  "size_inv (s\<lparr>memory := z\<rparr>) = size_inv s"
  "size_inv (s\<lparr>prefetch_queue := q\<rparr>) = size_inv s"
  by (simp_all add: size_inv_def entries_bytes_def)

lemma tc_inv_upd [simp]:
  "tc_inv (s\<lparr>metrics := x\<rparr>) = tc_inv s"
  "tc_inv (s\<lparr>recent_accesses := y\<rparr>) = tc_inv s"
  by (simp_all add: tc_inv_def)

lemma allocate_entry_inv:
  assumes mi: "mem_inv (memory s)" and si: "size_inv s"
      and sz: "unat sz \<le> unat (max_cache_size_bytes s)"
      and mx: "unat (max_cache_size_bytes s) < 2 ^ 63"
      and ab: "map_of (cache_entries s) (cache_key tid mip) = None"
  shows "\<exists>s'. allocate_entry lt s tid mip addr sz
                 = Some (cache_key tid mip, TextureCacheEntry_new tid mip addr sz, s')
           \<and> mem_inv (memory s') \<and> size_inv s'
           \<and> vram (memory s') = vram (memory s)
           \<and> max_cache_size_bytes s' = max_cache_size_bytes s
           \<and> prefetch_queue s' = prefetch_queue s
           \<and> map_of (cache_entries s') (cache_key tid mip)
               = Some (TextureCacheEntry_new tid mip addr sz)"
proof -
  let ?key = "cache_key tid mip" and ?e = "TextureCacheEntry_new tid mip addr sz"
  obtain s1 where e: "evict_until_fits lt s sz = Some s1" "mem_inv (memory s1)" "size_inv s1"
      "vram (memory s1) = vram (memory s)"
      "max_cache_size_bytes s1 = max_cache_size_bytes s"
      "prefetch_queue s1 = prefetch_queue s"
      "unat (current_cache_size_bytes s1) + unat sz \<le> unat (max_cache_size_bytes s1)"
      "\<forall>k. map_of (cache_entries s) k = None \<longrightarrow> map_of (cache_entries s1) k = None"
    using evict_until_fits_inv [OF mi si sz mx, of lt] by blast
  have ab1: "map_of (cache_entries s1) ?key = None" using e(8) ab by simp
  let ?s' = "s1\<lparr>cache_entries := umap_assign ?key ?e (cache_entries s1),
                current_cache_size_bytes := current_cache_size_bytes s1 + sz\<rparr>"
  have r: "allocate_entry lt s tid mip addr sz = Some (?key, ?e, ?s')"
    by (simp add: allocate_entry_def e(1) Let_def)
  have add: "unat (current_cache_size_bytes s1 + sz) = unat (current_cache_size_bytes s1) + unat sz"
    using e(7,5) mx by (simp add: unat_word_ariths)
  have sum1: "entry_bytes (cache_entries s1) = unat (current_cache_size_bytes s1)"
    using e(3) by (simp add: size_inv_def entries_bytes_alt)
  have "entry_bytes (umap_assign ?key ?e (cache_entries s1))
          = unat (current_cache_size_bytes s1) + unat sz"
    using sum1 by (simp add: umap_assign_absent [OF ab1] TextureCacheEntry_new_def)
  then have "size_inv ?s'"
    using add e(7) by (simp add: size_inv_def entries_bytes_alt word_le_nat_alt)
  then show ?thesis
    using r e(2,4,5,6) by (intro exI [of _ ?s']) (simp add: map_of_umap_assign)
qed

lemma texture_size_bounds:
  fixes mx :: u64
  assumes "n \<le> unat mx" "2 ^ 20 \<le> unat mx" "unat mx < 2 ^ 63"
  shows "unat (max (word_of_nat n) (1024 * 1024) :: u64) = max n (2 ^ 20)"
    and "0 < (max (word_of_nat n) (1024 * 1024) :: u64)"
    and "(max (word_of_nat n) (1024 * 1024) :: u64) \<le> 2 ^ 63"
    and "unat (max (word_of_nat n) (1024 * 1024) :: u64) \<le> unat mx"
proof -
  have n: "unat (word_of_nat n :: u64) = n" using assms by (simp add: unat_of_nat)
  have m: "unat (1024 * 1024 :: u64) = 2 ^ 20" by simp
  show u: "unat (max (word_of_nat n) (1024 * 1024) :: u64) = max n (2 ^ 20)"
    using n m by (simp add: max_def word_le_nat_alt)
  have "0 < unat (max (word_of_nat n) (1024 * 1024) :: u64)" unfolding u by simp
  then show "0 < (max (word_of_nat n) (1024 * 1024) :: u64)"
    by (simp add: word_less_nat_alt)
  show "unat (max (word_of_nat n) (1024 * 1024) :: u64) \<le> unat mx"
    unfolding u using assms by simp
  then have "unat (max (word_of_nat n) (1024 * 1024) :: u64) \<le> 2 ^ 63" using assms(3) by simp
  then show "(max (word_of_nat n) (1024 * 1024) :: u64) \<le> 2 ^ 63"
    by (simp add: word_le_nat_alt)
qed

lemma read_miss_inv:
  assumes inv: "tc_inv s" and ab: "find_entry s tid mip = None"
      and len: "length buf \<le> unat (max_cache_size_bytes s)"
  shows "\<exists>ok buf' s'. read_miss lt s now tid mip offset buf = Some (ok, buf', s') \<and> tc_inv s'"
proof -
  let ?ts = "max (word_of_nat (length buf)) (1024 * 1024) :: u64"
  let ?s1 = "s\<lparr>metrics := (metrics s)\<lparr>cache_misses := cache_misses (metrics s) + 1\<rparr>\<rparr>"
  have mi: "mem_inv (memory s)" and si: "size_inv s" and q: "prefetch_queue s = []"
    and lo: "2 ^ 20 \<le> unat (max_cache_size_bytes s)" and mx: "unat (max_cache_size_bytes s) < 2 ^ 63"
    using inv by (simp_all add: tc_inv_def)
  note tb = texture_size_bounds [OF len lo mx]
  obtain a m1 where al: "mh_allocate (memory s) ?ts = (a, m1)" by (cases "mh_allocate (memory s) ?ts")
  note ai = mh_allocate_inv [OF mi tb(2) tb(3) al]
  show ?thesis
  proof (cases "a = 0")
    case True
    have "read_miss lt s now tid mip offset buf = Some (False, buf, ?s1\<lparr>memory := m1\<rparr>)"
      using True al by (simp add: read_miss_def Let_def)
    moreover have "tc_inv (?s1\<lparr>memory := m1\<rparr>)"
      using inv ai(1) by (simp add: tc_inv_def)
    ultimately show ?thesis by blast
  next
    case False
    let ?z = "replicate (unat ?ts) (0 :: u8)"
    have inb: "unat a + length ?z \<le> length (vram m1)" using ai(3) [OF False] by simp
    obtain ok td m2 where rd: "mh_read m1 a ?z = (ok, td, m2)" by (cases "mh_read m1 a ?z")
    have ok: "ok" and ltd: "length td = unat ?ts"
      using mh_read_ok [OF ai(1) inb] rd by simp_all
    have mi2: "mem_inv m2" using mh_read_inv [OF ai(1), of a ?z] rd by simp
    let ?s1m = "?s1\<lparr>memory := m2\<rparr>"
    have ab1: "map_of (cache_entries ?s1m) (cache_key tid mip) = None"
      using ab by (simp add: find_entry_def)
    obtain s2 where ae: "allocate_entry lt ?s1m tid mip a ?ts
                 = Some (cache_key tid mip, TextureCacheEntry_new tid mip a ?ts, s2)"
        "mem_inv (memory s2)" "size_inv s2"
        "max_cache_size_bytes s2 = max_cache_size_bytes ?s1m"
        "prefetch_queue s2 = prefetch_queue ?s1m"
        "map_of (cache_entries s2) (cache_key tid mip) = Some (TextureCacheEntry_new tid mip a ?ts)"
      using allocate_entry_inv [of ?s1m ?ts tid mip lt a] mi2 si tb(4) mx ab1 by auto
    let ?e' = "(TextureCacheEntry_new tid mip a ?ts)\<lparr>entry_data := td, last_access_time := now,
                 entry_access_count := 1, is_prefetched := False\<rparr>"
    let ?s3 = "s2\<lparr>cache_entries := umap_assign (cache_key tid mip) ?e' (cache_entries s2),
                  metrics := (metrics s2)\<lparr>bytes_transferred :=
                                        bytes_transferred (metrics s2) + ?ts\<rparr>\<rparr>"
    have "\<exists>buf'. read_miss lt s now tid mip offset buf = Some (True, buf', ?s3)"
      using False al rd ok ae(1) by (simp add: read_miss_def Let_def)
    moreover have "entry_bytes (umap_assign (cache_key tid mip) ?e' (cache_entries s2))
                     = entry_bytes (cache_entries s2)"
      using umap_assign_bytes [OF ae(6), of ?e'] ltd by (simp add: TextureCacheEntry_new_def)
    then have "tc_inv ?s3"
      using ae(2-5) q lo mx by (simp add: tc_inv_def size_inv_def entries_bytes_alt)
    ultimately show ?thesis by blast
  qed
qed

lemma prefetch_texture_inv:
  assumes inv: "tc_inv s"
  shows "\<exists>s'. prefetch_texture lt s tid mip = Some s' \<and> tc_inv s'"
proof (cases "map_of (cache_entries s) (cache_key tid mip)")
  case (Some e)
  then show ?thesis using inv by (simp add: prefetch_texture_def)
next
  case None
  let ?key = "cache_key tid mip"
  let ?ts = "1024 * 1024 :: u64"
  have mi: "mem_inv (memory s)" and si: "size_inv s" and q: "prefetch_queue s = []"
    and lo: "2 ^ 20 \<le> unat (max_cache_size_bytes s)" and mx: "unat (max_cache_size_bytes s) < 2 ^ 63"
    using inv by (simp_all add: tc_inv_def)
  obtain a m1 where al: "mh_allocate (memory s) ?ts = (a, m1)" by (cases "mh_allocate (memory s) ?ts")
  have p: "0 < ?ts" "?ts \<le> 2 ^ 63" by simp_all
  note ai = mh_allocate_inv [OF mi p al]
  let ?s1 = "s\<lparr>prefetch_queue := [], memory := m1\<rparr>"
  show ?thesis
  proof (cases "a = 0")
    case True
    have "prefetch_texture lt s tid mip = Some ?s1"
      using None True al q by (simp add: prefetch_texture_def Let_def)
    moreover have "tc_inv ?s1" using inv ai(1) by (simp add: tc_inv_def)
    ultimately show ?thesis by blast
  next
    case False
    have ab1: "map_of (cache_entries ?s1) (cache_key (drop_bit 8 ?key) (ucast (?key AND 0xFF))) = None"
      using None by (simp add: cache_key_decode)
    have szle: "unat ?ts \<le> unat (max_cache_size_bytes ?s1)" using lo by simp
    obtain s2 where ae: "allocate_entry lt ?s1 (drop_bit 8 ?key) (ucast (?key AND 0xFF)) a ?ts
                 = Some (?key, TextureCacheEntry_new (drop_bit 8 ?key) (ucast (?key AND 0xFF)) a ?ts, s2)"
        "mem_inv (memory s2)" "size_inv s2"
        "vram (memory s2) = vram (memory ?s1)"
        "max_cache_size_bytes s2 = max_cache_size_bytes ?s1"
        "prefetch_queue s2 = prefetch_queue ?s1"
        "map_of (cache_entries s2) ?key
           = Some (TextureCacheEntry_new (drop_bit 8 ?key) (ucast (?key AND 0xFF)) a ?ts)"
      using allocate_entry_inv [of ?s1 ?ts "drop_bit 8 ?key" "ucast (?key AND 0xFF)" lt a]
            ai(1) si szle mx ab1
      by (auto simp: cache_key_decode)
    let ?e = "TextureCacheEntry_new (drop_bit 8 ?key) (ucast (?key AND 0xFF)) a ?ts"
    have inb: "unat a + length (entry_data ?e) \<le> length (vram (memory s2))"
      using ai(3) [OF False] ae(4) by (simp add: TextureCacheEntry_new_def)
    obtain ok d m2 where rd: "mh_read (memory s2) a (entry_data ?e) = (ok, d, m2)"
      by (cases "mh_read (memory s2) a (entry_data ?e)")
    have ld: "length d = length (entry_data ?e)"
      using mh_read_ok(2) [OF ae(2) inb] rd by simp
    have mi2: "mem_inv m2" using mh_read_inv [OF ae(2), of a "entry_data ?e"] rd by simp
    let ?e' = "?e\<lparr>entry_data := d, is_prefetched := True\<rparr>"
    let ?s3 = "s2\<lparr>memory := m2, cache_entries := umap_assign ?key ?e' (cache_entries s2),
                  metrics := (metrics s2)\<lparr>bytes_transferred :=
                                        bytes_transferred (metrics s2) + ?ts\<rparr>\<rparr>"
    have "prefetch_texture lt s tid mip = Some ?s3"
      using None False al q ae(1) rd by (simp add: prefetch_texture_def Let_def)
    moreover have "entry_bytes (umap_assign ?key ?e' (cache_entries s2))
                     = entry_bytes (cache_entries s2)"
      using umap_assign_bytes [OF ae(7), of ?e'] ld by simp
    then have "tc_inv ?s3"
      using ae(3,5,6) mi2 lo mx by (simp add: tc_inv_def size_inv_def entries_bytes_alt)
    ultimately show ?thesis by blast
  qed
qed

lemma slice_in_bounds_word:
  fixes offset :: u64
  assumes "unat offset + n \<le> len" "len < 2 ^ 64"
  shows "offset + word_of_nat n \<le> (word_of_nat len :: u64)"
proof -
  have n: "unat (word_of_nat n :: u64) = n" using assms by (simp add: unat_of_nat)
  have l: "unat (word_of_nat len :: u64) = len" using assms by (simp add: unat_of_nat)
  have "unat (offset + word_of_nat n) = unat offset + n"
    using assms n by (simp add: unat_word_ariths)
  then show ?thesis using assms(1) l by (simp add: word_le_nat_alt)
qed

lemma read_texture_hit:
  assumes res: "find_entry s tid mip = Some e"
      and inb: "unat offset + length buf \<le> length (entry_data e)"
      and small: "length (entry_data e) < 2 ^ 64"
  shows "read_texture lt s now tid mip offset buf =
           (let s3 = s\<lparr>recent_accesses :=
                        record_access s \<lparr>ap_texture_id = tid, ap_mip_level = mip,
                                          ap_timestamp = now\<rparr>,
                      cache_entries :=
                        umap_assign (cache_key tid mip)
                          (e\<lparr>last_access_time := now,
                             entry_access_count := entry_access_count e + 1\<rparr>)
                          (cache_entries s),
                      metrics := (metrics s)
                        \<lparr>cache_hits := cache_hits (metrics s) + 1,
                         prefetch_hits := (if is_prefetched e then prefetch_hits (metrics s) + 1
                                           else prefetch_hits (metrics s))\<rparr>\<rparr>
            in case (if smart_prefetching_enabled s then predict_future_accesses lt s3
                     else Some s3) of
                 None \<Rightarrow> None
               | Some s4 \<Rightarrow>
                   Some (True, take (length buf) (drop (unat offset) (entry_data e)), s4))"
proof -
  have w: "offset + word_of_nat (length buf) \<le> (word_of_nat (length (entry_data e)) :: u64)"
    by (rule slice_in_bounds_word [OF inb small])
  show ?thesis
    using res w
    by (simp add: read_texture_def find_entry_def Let_def cong: option.case_cong)
qed

lemma read_texture_inv:
  assumes inv: "tc_inv s" and adm: "read_admissible s tid mip offset buf"
  shows "\<exists>ok buf' s'. read_texture lt s now tid mip offset buf = Some (ok, buf', s') \<and> tc_inv s'"
proof (cases "find_entry s tid mip")
  case None
  let ?p = "\<lparr>ap_texture_id = tid, ap_mip_level = mip, ap_timestamp = now\<rparr>"
  let ?s1 = "s\<lparr>recent_accesses := record_access s ?p\<rparr>"
  have len: "length buf \<le> unat (max_cache_size_bytes ?s1)"
    using adm None by (simp add: read_admissible_def)
  have "find_entry ?s1 tid mip = None" using None by (simp add: find_entry_def)
  from read_miss_inv [OF _ this len, of lt now offset] inv
  obtain ok buf' s' where "read_miss lt ?s1 now tid mip offset buf = Some (ok, buf', s')" "tc_inv s'"
    by auto
  moreover have "read_texture lt s now tid mip offset buf = read_miss lt ?s1 now tid mip offset buf"
    using None by (simp add: read_texture_def find_entry_def Let_def)
  ultimately show ?thesis by auto
next
  case (Some e)
  let ?key = "cache_key tid mip"
  let ?p = "\<lparr>ap_texture_id = tid, ap_mip_level = mip, ap_timestamp = now\<rparr>"
  let ?e' = "e\<lparr>last_access_time := now, entry_access_count := entry_access_count e + 1\<rparr>"
  let ?s3 = "s\<lparr>recent_accesses := record_access s ?p,
                cache_entries := umap_assign ?key ?e' (cache_entries s),
                metrics := (metrics s)
                  \<lparr>cache_hits := cache_hits (metrics s) + 1,
                   prefetch_hits := (if is_prefetched e then prefetch_hits (metrics s) + 1
                                     else prefetch_hits (metrics s))\<rparr>\<rparr>"
  have mo: "map_of (cache_entries s) ?key = Some e" using Some by (simp add: find_entry_def)
  have inb: "unat offset + length buf \<le> length (entry_data e)"
    using adm Some by (simp add: read_admissible_def)
  have sum: "entry_bytes (cache_entries s) = unat (current_cache_size_bytes s)"
    using inv by (simp add: tc_inv_def size_inv_def entries_bytes_alt)
  have "unat (current_cache_size_bytes s) < 2 ^ 64"
    using unsigned_less [of "current_cache_size_bytes s", where 'a = nat] by simp
  then have small: "length (entry_data e) < 2 ^ 64"
    using map_of_entry_bytes_le [OF mo] sum by linarith
  have "entry_bytes (umap_assign ?key ?e' (cache_entries s)) = entry_bytes (cache_entries s)"
    using umap_assign_bytes [OF mo, of ?e'] by simp
  then have inv3: "tc_inv ?s3"
    using inv by (simp add: tc_inv_def size_inv_def entries_bytes_alt)
  have "\<exists>s4. (if smart_prefetching_enabled s then predict_future_accesses lt ?s3 else Some ?s3)
               = Some s4 \<and> tc_inv s4"
  proof (cases "smart_prefetching_enabled s")
    case False
    then show ?thesis using inv3 by simp
  next
    case True
    show ?thesis
    proof (cases "predicted_prefetch (recent_accesses ?s3)")
      case None
      then show ?thesis using True inv3 by (simp add: predict_future_accesses_def)
    next
      case (Some tm)
      obtain t m where tm: "tm = (t, m)" by (cases tm)
      show ?thesis
        using True Some tm prefetch_texture_inv [OF inv3, of lt t m]
        by (simp add: predict_future_accesses_def)
    qed
  qed
  then obtain s4 where s4: "(if smart_prefetching_enabled s then predict_future_accesses lt ?s3
                             else Some ?s3) = Some s4" "tc_inv s4" by blast
  have "read_texture lt s now tid mip offset buf
          = Some (True, take (length buf) (drop (unat offset) (entry_data e)), s4)"
    using s4(1) by (simp add: read_texture_hit [OF Some inb small] Let_def)
  then show ?thesis using s4(2) by blast
qed

lemma flush_loop_returns:
  "mem_inv m \<Longrightarrow> \<exists>m'. flush_loop m xs = Some m' \<and> mem_inv m'"
proof (induction xs arbitrary: m)
  case Nil
  then show ?case by simp
next
  case (Cons x xs)
  obtain k e where x: "x = (k, e)" by (cases x)
  obtain m1 where d: "mh_deallocate m (entry_address e) = Some m1" "mem_inv m1"
    using mh_deallocate_inv [OF Cons.prems] by blast
  show ?case using Cons.IH [OF d(2)] d(1) x by simp
qed

lemma tc_flush_inv:
  assumes "tc_inv s"
  shows "\<exists>s'. tc_flush s = Some s' \<and> tc_inv s'"
proof -
  obtain m' where f: "flush_loop (memory s) (cache_entries s) = Some m'" "mem_inv m'"
    using flush_loop_returns [of "memory s" "cache_entries s"] assms by (auto simp: tc_inv_def)
  show ?thesis
    using f assms by (simp add: tc_flush_def tc_inv_def size_inv_def entries_bytes_def)
qed

lemma invalidate_loop_returns:
  assumes "mem_inv m" "entry_bytes xs \<le> unat cur"
  shows "\<exists>m' cur' kept. invalidate_loop m cur xs tid = Some (m', cur', kept) \<and> mem_inv m'
           \<and> unat cur' + entry_bytes xs = unat cur + entry_bytes kept \<and> cur' \<le> cur"
  using assms
proof (induction xs arbitrary: m cur)
  case Nil
  then show ?case by simp
next
  case (Cons x xs)
  obtain k e where x: "x = (k, e)" by (cases x)
  let ?n = "length (entry_data e)"
  have le: "?n + entry_bytes xs \<le> unat cur" using Cons.prems(2) x by simp
  show ?case
  proof (cases "texture_id e = tid")
    case True
    obtain m1 where d: "mh_deallocate m (entry_address e) = Some m1" "mem_inv m1"
      using mh_deallocate_inv [OF Cons.prems(1)] by blast
    have "unat cur < 2 ^ 64" using unsigned_less [of cur, where 'a = nat] by simp
    then have un: "unat (word_of_nat ?n :: u64) = ?n" using le by (simp add: unat_of_nat)
    then have wle: "(word_of_nat ?n :: u64) \<le> cur" using le by (simp add: word_le_nat_alt)
    have sub: "unat (cur - word_of_nat ?n) = unat cur - ?n" using wle un by (simp add: unat_sub)
    have le': "entry_bytes xs \<le> unat (cur - word_of_nat ?n)" using sub le by simp
    obtain m' cur' kept where r:
      "invalidate_loop m1 (cur - word_of_nat ?n) xs tid = Some (m', cur', kept)" "mem_inv m'"
      "unat cur' + entry_bytes xs = unat (cur - word_of_nat ?n) + entry_bytes kept"
      "cur' \<le> cur - word_of_nat ?n"
      using Cons.IH [OF d(2) le'] by blast
    have "cur' \<le> cur" using r(4) sub by (simp add: word_le_nat_alt)
    moreover have "unat cur' + entry_bytes (x # xs) = unat cur + entry_bytes kept"
      using r(3) sub le x by simp
    ultimately show ?thesis using True d(1) r(1,2) x by simp
  next
    case False
    have le': "entry_bytes xs \<le> unat cur" using le by simp
    obtain m' cur' kept where r:
      "invalidate_loop m cur xs tid = Some (m', cur', kept)" "mem_inv m'"
      "unat cur' + entry_bytes xs = unat cur + entry_bytes kept" "cur' \<le> cur"
      using Cons.IH [OF Cons.prems(1) le'] by blast
    show ?thesis using False r x by simp
  qed
qed

lemma invalidate_texture_inv:
  assumes inv: "tc_inv s"
  shows "\<exists>s'. invalidate_texture s tid = Some s' \<and> tc_inv s'"
proof -
  have sum: "entry_bytes (cache_entries s) = unat (current_cache_size_bytes s)"
    and cm: "current_cache_size_bytes s \<le> max_cache_size_bytes s"
    and mi: "mem_inv (memory s)"
    using inv by (simp_all add: tc_inv_def size_inv_def entries_bytes_alt)
  obtain m' cur' kept where r:
    "invalidate_loop (memory s) (current_cache_size_bytes s) (cache_entries s) tid
       = Some (m', cur', kept)" "mem_inv m'"
    "unat cur' + entry_bytes (cache_entries s)
       = unat (current_cache_size_bytes s) + entry_bytes kept"
    "cur' \<le> current_cache_size_bytes s"
    using invalidate_loop_returns [OF mi, of "cache_entries s" "current_cache_size_bytes s" tid] sum
    by auto
  have "entry_bytes kept = unat cur'" using r(3) sum by simp
  moreover have "cur' \<le> max_cache_size_bytes s" using r(4) cm by simp
  ultimately show ?thesis
    using r(1,2) inv
    by (simp add: invalidate_texture_def tc_inv_def size_inv_def entries_bytes_alt)
qed

lemma tc_step_inv:
  assumes "tc_inv s" "op_admissible s op"
  shows "\<exists>s'. tc_step lt s op = Some s' \<and> tc_inv s'"
proof (cases op)
  case (ReadTexture now tid mip offset buf)
  then show ?thesis
    using read_texture_inv [OF assms(1), of tid mip offset buf lt now] assms(2) by auto
next
  case (PrefetchTexture tid mip)
  then show ?thesis using prefetch_texture_inv [OF assms(1), of lt tid mip] by simp
next
  case (InvalidateTexture tid)
  then show ?thesis using invalidate_texture_inv [OF assms(1), of tid] by simp
next
  case FlushCache
  then show ?thesis using tc_flush_inv [OF assms(1)] by simp
qed

lemma tc_run_inv:
  assumes "tc_inv s" "ops_admissible lt s ops"
  shows "\<exists>s'. tc_run lt s ops = Some s' \<and> tc_inv s'"
  using assms
proof (induction ops arbitrary: s)
  case Nil
  then show ?case by simp
next
  case (Cons op ops)
  obtain s1 where s1: "tc_step lt s op = Some s1" "tc_inv s1"
    using tc_step_inv [OF Cons.prems(1), of op lt] Cons.prems(2) by auto
  have "ops_admissible lt s1 ops" using Cons.prems(2) s1(1) by simp
  from Cons.IH [OF s1(2) this] show ?case using s1(1) by simp
qed

lemma ops_admissible_take:
  "ops_admissible lt s ops \<Longrightarrow> ops_admissible lt s (take n ops)"
proof (induction ops arbitrary: s n)
  case Nil
  then show ?case by simp
next
  case (Cons op ops)
  show ?case
  proof (cases n)
    case 0
    then show ?thesis by simp
  next
    case (Suc k)
    show ?thesis
      using Cons.prems Cons.IH [of _ k] Suc by (auto split: option.splits)
  qed
qed

lemmas tc_defs = read_texture_def read_miss_def allocate_entry_def prefetch_texture_def
  predict_future_accesses_def predicted_prefetch_def record_access_def TextureCache_new_def
  TextureCacheEntry_new_def cache_key_def evict_least_valuable_entry_def
  evict_until_fits.simps
  find_entry_def resident_keys_def entries_bytes_def has_entry_def has_prefetched_entry_def

lemma tc_inv_new:
  assumes "mem_inv mem" "1 \<le> mb" "mb < 2 ^ 43"
  shows "tc_inv (TextureCache_new mb mem)"
proof -
  have u: "unat mb < 2 ^ 43" "1 \<le> unat mb"
    using assms(2,3) by (simp_all add: word_le_nat_alt word_less_nat_alt)
  have "unat (mb * 1024 * 1024) = unat mb * 2 ^ 20"
    using u by (simp add: unat_word_ariths)
  then have "2 ^ 20 \<le> unat (mb * 1024 * 1024)" "unat (mb * 1024 * 1024) < 2 ^ 63"
    using u by simp_all
  then show ?thesis
    using assms(1)
    by (simp add: tc_inv_def size_inv_def entries_bytes_def TextureCache_new_def)
qed

lemma after_first_read_entry: "find_entry after_first_read 42 0 = Some first_entry"
  by (simp add: after_first_read_def first_entry_def tc_defs Let_def mh_defs gc_defs)

lemma after_first_read_np: "no_prefetch_issued after_first_read 2 42 0"
  by (simp add: after_first_read_def no_prefetch_issued_def tc_defs Let_def mh_defs gc_defs)

lemma mixed_ops_admissible:
  "ops_admissible by_last_access (TextureCache_new 256 MemoryHierarchy_new) mixed_ops"
  by (simp add: mixed_ops_def read_admissible_def tc_defs Let_def mh_defs gc_defs)

section \<open>The size invariant of the texture cache\<close>

text \<open>
  C1, as stated, fails in two ways. An entry larger than the whole cache is inserted
  all the same, the eviction loop stopping at the empty map: after the 65 MiB read
  \<open>current_cache_size_bytes\<close> is 65 MiB under a maximum of 64 MiB. And a read beyond a
  resident entry takes the miss path and assigns a new entry to the resident key without
  subtracting the old payload: one entry of 1 MiB is resident while
  \<open>current_cache_size_bytes\<close> is 2 MiB.
\<close>

theorem texture_cache_size_invariant_fails:
  "map_option current_cache_size_bytes oversize_read = Some 68157440
   \<and> map_option max_cache_size_bytes oversize_read = Some 67108864
   \<and> map_option resident_keys reread_beyond_entry = Some [cache_key 1 0]
   \<and> map_option entries_bytes reread_beyond_entry = Some 1048576
   \<and> map_option current_cache_size_bytes reread_beyond_entry = Some 2097152"
  by (simp add: oversize_read_def reread_beyond_entry_def tc_defs Let_def mh_defs gc_defs)

text \<open>
  C1, amended. From a state that satisfies \<open>tc_inv\<close> (a capacity of at least 1 MiB and
  below \<open>2^63\<close> bytes among its conditions), every sequence of \<open>read_texture\<close>,
  \<open>prefetch_texture\<close>, \<open>invalidate_texture\<close> and \<open>flush\<close> calls whose reads are admissible
  returns, and after each of its operations (after the first \<open>n\<close> of them, for every \<open>n\<close>)
  the payload sizes of the resident entries add up to \<open>current_cache_size_bytes\<close>, which is
  at most \<open>max_cache_size_bytes\<close>.
\<close>

theorem texture_cache_size_invariant:
  assumes "tc_inv s" "ops_admissible lt s ops"
  shows "case tc_run lt s (take n ops) of
           None \<Rightarrow> False
         | Some s' \<Rightarrow> entries_bytes s' = unat (current_cache_size_bytes s') \<and>
                      current_cache_size_bytes s' \<le> max_cache_size_bytes s'"
proof -
  obtain s' where "tc_run lt s (take n ops) = Some s'" "tc_inv s'"
    using tc_run_inv [OF assms(1) ops_admissible_take [OF assms(2)]] by blast
  then show ?thesis by (simp add: tc_inv_def size_inv_def)
qed

theorem texture_cache_size_invariant_witness:
  "tc_inv (TextureCache_new 256 MemoryHierarchy_new)
   \<and> ops_admissible by_last_access (TextureCache_new 256 MemoryHierarchy_new) mixed_ops
   \<and> (case tc_run by_last_access (TextureCache_new 256 MemoryHierarchy_new) mixed_ops of
         None \<Rightarrow> False
       | Some s' \<Rightarrow> entries_bytes s' = unat (current_cache_size_bytes s') \<and>
                    current_cache_size_bytes s' \<le> max_cache_size_bytes s')"
proof -
  have i: "tc_inv (TextureCache_new 256 MemoryHierarchy_new)"
    by (rule tc_inv_new [OF mem_inv_new]) simp_all
  show ?thesis
    using texture_cache_size_invariant [OF i mixed_ops_admissible, of "length mixed_ops"]
      i mixed_ops_admissible
    by simp
qed

section \<open>Prefetching along a mip walk\<close>



section \<open>Cache keys\<close>

text \<open>
  C6. The claim asks for distinct keys for distinct pairs. The key is
  \<open>(texture_id << 8) | mip_level\<close> with nothing rejected or saturated: the pairs \<open>(0, 256)\<close>
  and \<open>(1, 0)\<close> share the key 256 (as do \<open>(2^56, 0)\<close> and \<open>(0, 0)\<close>, the shift dropping the
  top byte of the id). After a read of \<open>(1, 0)\<close> a read of \<open>(0, 256)\<close> is counted as a hit
  and served from the entry of texture 1, the only entry resident.
\<close>

theorem cache_key_collision:
  "cache_key 0 256 = cache_key 1 0 \<and> cache_key (2 ^ 56) 0 = cache_key 0 0
   \<and> map_option resident_keys key_collision_reads = Some [cache_key 1 0]
   \<and> map_option (\<lambda>s. map (\<lambda>(k, e). (texture_id e, mip_level e)) (cache_entries s))
        key_collision_reads = Some [(1, 0)]
   \<and> map_option (\<lambda>s. (cache_hits (metrics s), cache_misses (metrics s)))
        key_collision_reads = Some (1, 1)"
  by (simp add: key_collision_reads_def tc_defs Let_def mh_defs gc_defs)

section \<open>What a hit changes\<close>

text \<open>
  C10, as stated, fails: with smart prefetching on, the hit path ends with the pattern
  predictor, which may insert an entry. The second read of the same 64 bytes is a hit
  that leaves one resident key and 1 MiB; the third is a hit (the hit counter goes from
  1 to 2) after which a second key, \<open>(42,1)\<close>, is resident and
  \<open>current_cache_size_bytes\<close> is 2 MiB.
\<close>

theorem read_hit_issues_prefetch:
  "map_option resident_keys two_repeated_reads = Some [cache_key 42 0]
   \<and> map_option current_cache_size_bytes two_repeated_reads = Some 1048576
   \<and> map_option (cache_hits \<circ> metrics) two_repeated_reads = Some 1
   \<and> map_option resident_keys three_repeated_reads = Some [cache_key 42 0, cache_key 42 1]
   \<and> map_option current_cache_size_bytes three_repeated_reads = Some 2097152
   \<and> map_option (cache_hits \<circ> metrics) three_repeated_reads = Some 2"
  by (simp add: two_repeated_reads_def three_repeated_reads_def tc_defs Let_def mh_defs
        gc_defs)

text \<open>
  C10, amended. For a resident entry \<open>e\<close> under the key of \<open>(tid, mip)\<close> and a read whose
  slice lies inside it, when the hit issues no prefetch (\<open>no_prefetch_issued\<close>): the call
  returns true with the slice; the resident keys, every entry's payload and
  \<open>current_cache_size_bytes\<close> are unchanged; the hit entry differs only in
  \<open>last_access_time\<close> and \<open>access_count\<close>, every other key maps to what it mapped to; and
  apart from the entries, the metrics and the access history the state is the same.
\<close>

theorem read_hit_changes_only_bookkeeping:
  assumes res: "find_entry s tid mip = Some e"
      and inb: "unat offset + length buf \<le> length (entry_data e)"
      and small: "length (entry_data e) < 2 ^ 64"
      and np: "no_prefetch_issued s now tid mip"
  shows "\<exists>s'. read_texture lt s now tid mip offset buf
                 = Some (True, take (length buf) (drop (unat offset) (entry_data e)), s')
           \<and> resident_keys s' = resident_keys s
           \<and> map (\<lambda>(k, x). (k, entry_data x)) (cache_entries s')
               = map (\<lambda>(k, x). (k, entry_data x)) (cache_entries s)
           \<and> current_cache_size_bytes s' = current_cache_size_bytes s
           \<and> find_entry s' tid mip
               = Some (e\<lparr>last_access_time := now,
                         entry_access_count := entry_access_count e + 1\<rparr>)
           \<and> (\<forall>k. k \<noteq> cache_key tid mip \<longrightarrow>
                  map_of (cache_entries s') k = map_of (cache_entries s) k)
           \<and> s'\<lparr>recent_accesses := recent_accesses s, cache_entries := cache_entries s,
                 metrics := metrics s\<rparr> = s"
proof -
  let ?key = "cache_key tid mip"
  let ?p = "\<lparr>ap_texture_id = tid, ap_mip_level = mip, ap_timestamp = now\<rparr>"
  let ?e' = "e\<lparr>last_access_time := now, entry_access_count := entry_access_count e + 1\<rparr>"
  let ?s3 = "s\<lparr>recent_accesses := record_access s ?p,
                cache_entries := umap_assign ?key ?e' (cache_entries s),
                metrics := (metrics s)
                  \<lparr>cache_hits := cache_hits (metrics s) + 1,
                   prefetch_hits := (if is_prefetched e then prefetch_hits (metrics s) + 1
                                     else prefetch_hits (metrics s))\<rparr>\<rparr>"
  have mo: "map_of (cache_entries s) ?key = Some e" using res by (simp add: find_entry_def)
  have pf: "smart_prefetching_enabled s \<Longrightarrow> predict_future_accesses lt ?s3 = Some ?s3"
  proof -
    assume sm: "smart_prefetching_enabled s"
    show ?thesis
    proof (cases "predicted_prefetch (record_access s ?p)")
      case None
      then show ?thesis by (simp add: predict_future_accesses_def)
    next
      case (Some tm)
      obtain t m where tm: "tm = (t, m)" by (cases tm)
      have "has_entry t m s" using np sm Some tm by (simp add: no_prefetch_issued_def)
      then have "map_of (cache_entries s) (cache_key t m) \<noteq> None"
        by (simp add: has_entry_def find_entry_def)
      then have "map_of (cache_entries ?s3) (cache_key t m) \<noteq> None"
        by (simp add: map_of_umap_assign)
      then show ?thesis
        using Some tm by (simp add: predict_future_accesses_def prefetch_texture_def Let_def)
    qed
  qed
  have r: "read_texture lt s now tid mip offset buf
             = Some (True, take (length buf) (drop (unat offset) (entry_data e)), ?s3)"
    using pf by (simp add: read_texture_hit [OF res inb small] Let_def)
  have "s = s\<lparr>recent_accesses := recent_accesses s, cache_entries := cache_entries s,
              metrics := metrics s\<rparr>" by simp
  then have fr: "?s3\<lparr>recent_accesses := recent_accesses s, cache_entries := cache_entries s,
                    metrics := metrics s\<rparr> = s" by simp
  show ?thesis
    using r fr umap_assign_keys [OF mo, of ?e'] umap_assign_payloads [OF mo, of ?e']
    by (intro exI [of _ ?s3])
       (simp add: resident_keys_def find_entry_def map_of_umap_assign)
qed

theorem read_hit_changes_only_bookkeeping_witness:
  "find_entry after_first_read 42 0 = Some first_entry
   \<and> no_prefetch_issued after_first_read 2 42 0
   \<and> (\<exists>s'. read_texture by_last_access after_first_read 2 42 0 0 (replicate 64 0)
                 = Some (True, replicate 64 0, s')
           \<and> resident_keys s' = resident_keys after_first_read
           \<and> current_cache_size_bytes s' = current_cache_size_bytes after_first_read
           \<and> find_entry s' 42 0
               = Some (first_entry\<lparr>last_access_time := 2, entry_access_count := 2\<rparr>))"
proof -
  have inb: "unat (0 :: u64) + length (replicate 64 (0 :: u8)) \<le> length (entry_data first_entry)"
    by (simp add: first_entry_def)
  have small: "length (entry_data first_entry) < 2 ^ 64" by (simp add: first_entry_def)
  from read_hit_changes_only_bookkeeping [OF after_first_read_entry inb small after_first_read_np, of by_last_access]
  obtain s' where
    "read_texture by_last_access after_first_read 2 42 0 0 (replicate 64 0)
       = Some (True, take (length (replicate 64 (0 :: u8))) (drop (unat (0 :: u64)) (entry_data first_entry)), s')"
    "resident_keys s' = resident_keys after_first_read"
    "current_cache_size_bytes s' = current_cache_size_bytes after_first_read"
    "find_entry s' 42 0
       = Some (first_entry\<lparr>last_access_time := 2,
                 entry_access_count := entry_access_count first_entry + 1\<rparr>)"
    by blast
  then have "read_texture by_last_access after_first_read 2 42 0 0 (replicate 64 0)
                 = Some (True, replicate 64 0, s')
           \<and> resident_keys s' = resident_keys after_first_read
           \<and> current_cache_size_bytes s' = current_cache_size_bytes after_first_read
           \<and> find_entry s' 42 0
               = Some (first_entry\<lparr>last_access_time := 2, entry_access_count := 2\<rparr>)"
    by (simp add: first_entry_def)
  then show ?thesis using after_first_read_entry after_first_read_np by blast
qed

end
